theory Spec2Isabelle
  imports Complex_Main "HOL-Library.Word" "HOL-Library.Log_Nat"
begin

section \<open>The arithmetic of \<^verbatim>\<open>double\<close>\<close>

text \<open>
  The analyzer of \<^verbatim>\<open>src/main.cpp\<close> computes on C++ \<^verbatim>\<open>double\<close> values. They are
  modelled as IEEE-754 binary64 values with the default rounding (to nearest, ties to
  even): a finite value is the rational it denotes, the negative zero, the two
  infinities and the NaN are values of their own. \<open>Fin 0\<close> is the positive zero.
  An operation on finite values rounds the exact result (\<open>rnd\<close>); it raises nothing:
  a division by zero gives an infinity or the NaN.
\<close>

datatype double = Fin rat | MinusZero | PlusInf | MinusInf | NaN

text \<open>\<open>ilog2 a\<close> is the binary exponent of a positive rational: \<open>2 powi ilog2 a \<le> a < 2 powi (ilog2 a + 1)\<close>.\<close>

definition ilog2 :: "rat \<Rightarrow> int" where
  "ilog2 a = (if 1 \<le> a then bitlen \<lfloor>a\<rfloor> - 1 else - bitlen (\<lceil>1 / a\<rceil> - 1))"

definition round_even :: "rat \<Rightarrow> int" where
  "round_even x =
     (let f = \<lfloor>x\<rfloor>; d = x - of_int f in
      if d < 1 / 2 then f
      else if 1 / 2 < d then f + 1
      else if even f then f else f + 1)"

text \<open>
  The unit in the last place of a positive rational: 53 significant bits, and the
  subnormal spacing \<open>2 powi - 1074\<close> below \<open>2 powi - 1022\<close>.
\<close>

definition ulp :: "rat \<Rightarrow> rat" where
  "ulp a = 2 powi (max (ilog2 a) (- 1022) - 52)"

definition rnd :: "rat \<Rightarrow> double" where
  "rnd q =
     (if q = 0 then Fin 0
      else
        let a = \<bar>q\<bar>;
            n = round_even (a / ulp a);
            r = of_int n * ulp a
        in if 2 powi 1024 \<le> r then (if 0 < q then PlusInf else MinusInf)
           else if n = 0 then (if 0 < q then Fin 0 else MinusZero)
           else Fin (if 0 < q then r else - r))"

text \<open>A finite value is a \<^verbatim>\<open>double\<close> when rounding leaves it as it is.\<close>

fun is_double :: "double \<Rightarrow> bool" where
  "is_double (Fin q) = (rnd q = Fin q)"
| "is_double _ = True"

fun is_nan :: "double \<Rightarrow> bool" where
  "is_nan NaN = True"
| "is_nan _ = False"

fun is_inf :: "double \<Rightarrow> bool" where
  "is_inf PlusInf = True"
| "is_inf MinusInf = True"
| "is_inf _ = False"

fun is_zero :: "double \<Rightarrow> bool" where
  "is_zero (Fin q) = (q = 0)"
| "is_zero MinusZero = True"
| "is_zero _ = False"

fun is_finite :: "double \<Rightarrow> bool" where
  "is_finite (Fin q) = True"
| "is_finite MinusZero = True"
| "is_finite _ = False"

text \<open>The sign bit.\<close>

fun is_neg :: "double \<Rightarrow> bool" where
  "is_neg (Fin q) = (q < 0)"
| "is_neg MinusZero = True"
| "is_neg MinusInf = True"
| "is_neg _ = False"

text \<open>The rational a finite value denotes.\<close>

fun val :: "double \<Rightarrow> rat" where
  "val (Fin q) = q"
| "val _ = 0"

definition signed_zero :: "bool \<Rightarrow> double" where
  "signed_zero neg = (if neg then MinusZero else Fin 0)"

definition signed_inf :: "bool \<Rightarrow> double" where
  "signed_inf neg = (if neg then MinusInf else PlusInf)"

fun dneg :: "double \<Rightarrow> double" where
  "dneg (Fin q) = (if q = 0 then MinusZero else Fin (- q))"
| "dneg MinusZero = Fin 0"
| "dneg PlusInf = MinusInf"
| "dneg MinusInf = PlusInf"
| "dneg NaN = NaN"

text \<open>
  Addition. A sum of two infinities of opposite sign is the NaN; an exact sum that is
  zero is the positive zero unless both operands are the negative zero; adding a zero
  leaves the other operand as it is.
\<close>

fun dadd :: "double \<Rightarrow> double \<Rightarrow> double" where
  "dadd NaN y = NaN"
| "dadd x NaN = NaN"
| "dadd PlusInf MinusInf = NaN"
| "dadd MinusInf PlusInf = NaN"
| "dadd PlusInf y = PlusInf"
| "dadd x PlusInf = PlusInf"
| "dadd MinusInf y = MinusInf"
| "dadd x MinusInf = MinusInf"
| "dadd MinusZero y = y"
| "dadd x MinusZero = x"
| "dadd (Fin a) (Fin b) =
     (if a = 0 then Fin b else if b = 0 then Fin a
      else if a + b = 0 then Fin 0 else rnd (a + b))"

text \<open>The magnitude.\<close>

definition dabs :: "double \<Rightarrow> double" where
  "dabs x = (if is_neg x then dneg x else x)"

definition dsub :: "double \<Rightarrow> double \<Rightarrow> double" where
  "dsub x y = dadd x (dneg y)"

definition dmul :: "double \<Rightarrow> double \<Rightarrow> double" where
  "dmul x y =
     (if is_nan x \<or> is_nan y then NaN
      else if (is_inf x \<and> is_zero y) \<or> (is_zero x \<and> is_inf y) then NaN
      else if is_inf x \<or> is_inf y then signed_inf (is_neg x \<noteq> is_neg y)
      else if is_zero x \<or> is_zero y then signed_zero (is_neg x \<noteq> is_neg y)
      else rnd (val x * val y))"

definition ddiv :: "double \<Rightarrow> double \<Rightarrow> double" where
  "ddiv x y =
     (if is_nan x \<or> is_nan y then NaN
      else if (is_inf x \<and> is_inf y) \<or> (is_zero x \<and> is_zero y) then NaN
      else if is_inf x \<or> is_zero y then signed_inf (is_neg x \<noteq> is_neg y)
      else if is_inf y \<or> is_zero x then signed_zero (is_neg x \<noteq> is_neg y)
      else rnd (val x / val y))"

text \<open>
  The comparisons \<^verbatim>\<open><\<close> and \<^verbatim>\<open>==\<close>: false whenever an operand is the NaN; the two zeros
  are equal.
\<close>

fun dless :: "double \<Rightarrow> double \<Rightarrow> bool" where
  "dless NaN y = False"
| "dless x NaN = False"
| "dless x MinusInf = False"
| "dless MinusInf y = True"
| "dless PlusInf y = False"
| "dless x PlusInf = True"
| "dless x y = (val x < val y)"

fun deq :: "double \<Rightarrow> double \<Rightarrow> bool" where
  "deq NaN y = False"
| "deq x NaN = False"
| "deq PlusInf y = (y = PlusInf)"
| "deq x PlusInf = False"
| "deq MinusInf y = (y = MinusInf)"
| "deq x MinusInf = False"
| "deq x y = (val x = val y)"

text \<open>The least positive \<^verbatim>\<open>double\<close>.\<close>

definition least_double :: rat where
  "least_double = 2 powi (- 1074)"

text \<open>\<open>at_least b x\<close>: the value \<open>x\<close> is the positive infinity or a finite value not below \<open>b\<close>.\<close>

fun at_least :: "rat \<Rightarrow> double \<Rightarrow> bool" where
  "at_least b (Fin r) = (b \<le> r)"
| "at_least b PlusInf = True"
| "at_least b x = False"

text \<open>The conversion of an \<^verbatim>\<open>int\<close> (32 bits) to \<^verbatim>\<open>double\<close> is exact.\<close>

definition double_of_int :: "int \<Rightarrow> double" where
  "double_of_int n = Fin (of_int n)"

text \<open>
  \<^verbatim>\<open>std::sqrt\<close> is correctly rounded. \<open>isqrt\<close> is the integer square root; the root of
  a positive \<^verbatim>\<open>double\<close> is neither subnormal nor infinite.
\<close>

fun isqrt :: "nat \<Rightarrow> nat" where
  "isqrt n =
     (if n < 2 then n
      else let r = 2 * isqrt (n div 4) in if (r + 1) * (r + 1) \<le> n then r + 1 else r)"

declare isqrt.simps [simp del]

definition sqrt_rnd :: "rat \<Rightarrow> double" where
  "sqrt_rnd q =
     (let u = 2 powi (ilog2 q div 2 - 52);
          t = q / (u * u);
          n = int (isqrt (nat \<lfloor>t\<rfloor>));
          m = of_int n + 1 / 2
      in Fin (of_int (if t < m * m then n
                      else if m * m < t then n + 1
                      else if even n then n else n + 1) * u))"

fun dsqrt :: "double \<Rightarrow> double" where
  "dsqrt (Fin q) = (if q < 0 then NaN else if q = 0 then Fin 0 else sqrt_rnd q)"
| "dsqrt MinusZero = MinusZero"
| "dsqrt PlusInf = PlusInf"
| "dsqrt MinusInf = NaN"
| "dsqrt NaN = NaN"

text \<open>
  \<^verbatim>\<open>std::pow\<close> is the function of the C library, which the repository does not hold and
  whose results need not be correctly rounded: the functions that call it take it as
  a parameter.
\<close>

type_synonym pow_function = "double \<Rightarrow> double \<Rightarrow> double"

section \<open>The analyzer\<close>

text \<open>
  The members of \<^verbatim>\<open>class TimeSeriesAnalyzer\<close>. An \<^verbatim>\<open>int\<close> has 32 bits (read by \<open>sint\<close>), a
  \<^verbatim>\<open>long long\<close> 64, and \<^verbatim>\<open>size_t\<close> is the unsigned 64-bit type.
\<close>

type_synonym int32 = "32 word"

record analyzer =
  api_key :: string
  symbol :: string
  update_interval :: int32
  prices :: "double list"
  timestamps :: "64 word list"

text \<open>
  \<^verbatim>\<open>prices.size() < period\<close> compares a \<^verbatim>\<open>size_t\<close> with an \<^verbatim>\<open>int\<close>: the \<^verbatim>\<open>int\<close> is
  converted to \<^verbatim>\<open>size_t\<close>, that is reduced modulo \<open>2 ^ 64\<close>, so a negative period
  becomes a number of at least \<open>2 ^ 63\<close>.
\<close>

definition size_t_of :: "int32 \<Rightarrow> nat" where
  "size_t_of p = nat (sint p mod 2 ^ 64)"

text \<open>
  \<^verbatim>\<open>prices[i]\<close> is \<^verbatim>\<open>std::vector::operator[]\<close>: a read outside the vector is
  undefined behaviour, which the model returns as the fault \<open>OutOfRange\<close>.
\<close>

datatype fault = OutOfRange

definition subscript :: "double list \<Rightarrow> int \<Rightarrow> fault + double" where
  "subscript ps i = (if 0 \<le> i \<and> nat i < length ps then Inr (ps ! nat i) else Inl OutOfRange)"

subsection \<open>Parsing the payload\<close>

text \<open>
  \<^verbatim>\<open>parseData\<close> works on a value of the JSON library. An object lists its members in
  the order of iteration. The exceptions are the library's \<^verbatim>\<open>parse_error\<close>,
  \<^verbatim>\<open>type_error\<close> and \<^verbatim>\<open>invalid_iterator\<close>, and \<^verbatim>\<open>std::invalid_argument\<close> and
  \<^verbatim>\<open>std::out_of_range\<close> of \<^verbatim>\<open>std::stod\<close>.
\<close>

datatype json = JNull | JString string | JPrimitive | JArray "json list" | JObject "(string \<times> json) list"

datatype exception = ParseError | TypeError | InvalidIterator | InvalidArgument | OutOfRangeArgument

text \<open>
  What \<^verbatim>\<open>parseData\<close> calls and the repository does not hold: \<^verbatim>\<open>json::parse\<close>,
  \<^verbatim>\<open>std::stod\<close>, and the conversion of a timestamp to milliseconds
  (\<^verbatim>\<open>std::get_time\<close>, \<^verbatim>\<open>std::mktime\<close>, \<^verbatim>\<open>duration_cast\<close>), which raises nothing.
\<close>

record library =
  json_parse :: "string \<Rightarrow> exception + json"
  stod :: "string \<Rightarrow> exception + double"
  to_millis :: "string \<Rightarrow> 64 word"

text \<open>\<^verbatim>\<open>operator[]\<close> with a key, on a value that is not \<^verbatim>\<open>const\<close>: a missing member is null.\<close>

fun member_at :: "json \<Rightarrow> string \<Rightarrow> exception + json" where
  "member_at (JObject kvs) k = Inr (case map_of kvs k of Some v \<Rightarrow> v | None \<Rightarrow> JNull)"
| "member_at JNull k = Inr JNull"
| "member_at j k = Inl TypeError"

text \<open>\<^verbatim>\<open>get<std::string>()\<close>.\<close>

fun get_string :: "json \<Rightarrow> exception + string" where
  "get_string (JString s) = Inr s"
| "get_string j = Inl TypeError"

text \<open>
  The iteration from \<^verbatim>\<open>begin()\<close> to \<^verbatim>\<open>end()\<close>: the members of an object, the elements
  of an array, nothing for null, the value itself otherwise. Only an iterator over an
  object has a \<^verbatim>\<open>key()\<close>.
\<close>

fun items :: "json \<Rightarrow> (string option \<times> json) list" where
  "items (JObject kvs) = map (\<lambda>(k, v). (Some k, v)) kvs"
| "items (JArray vs) = map (\<lambda>v. (None, v)) vs"
| "items JNull = []"
| "items j = [(None, j)]"

text \<open>The loop of \<^verbatim>\<open>parseData\<close> over the entries that are left.\<close>

fun parse_entries ::
  "library \<Rightarrow> (string option \<times> json) list \<Rightarrow> double list \<Rightarrow> 64 word list
   \<Rightarrow> exception + double list \<times> 64 word list" where
  "parse_entries L [] ps ts = Inr (ps, ts)"
| "parse_entries L ((key, v) # rest) ps ts =
     (case member_at v ''4. close'' of
        Inl e \<Rightarrow> Inl e
      | Inr c \<Rightarrow>
          (case get_string c of
             Inl e \<Rightarrow> Inl e
           | Inr s \<Rightarrow>
               (case stod L s of
                  Inl e \<Rightarrow> Inl e
                | Inr price \<Rightarrow>
                    (case key of
                       None \<Rightarrow> Inl InvalidIterator
                     | Some timestamp \<Rightarrow>
                         parse_entries L rest (ps @ [price]) (ts @ [to_millis L timestamp])))))"

definition parseData :: "library \<Rightarrow> analyzer \<Rightarrow> string \<Rightarrow> exception + analyzer" where
  "parseData L a data =
     (case json_parse L data of
        Inl e \<Rightarrow> Inl e
      | Inr j \<Rightarrow>
          (case member_at j ''Time Series (1min)'' of
             Inl e \<Rightarrow> Inl e
           | Inr time_series \<Rightarrow>
               (case parse_entries L (items time_series) [] [] of
                  Inl e \<Rightarrow> Inl e
                | Inr (ps, ts) \<Rightarrow> Inr (a\<lparr>prices := ps, timestamps := ts\<rparr>))))"

subsection \<open>Moving averages\<close>

text \<open>\<^verbatim>\<open>std::accumulate(first, last, init)\<close>: \<^verbatim>\<open>acc = acc + *it\<close> from left to right.\<close>

definition accumulate :: "double list \<Rightarrow> double \<Rightarrow> double" where
  "accumulate xs init = foldl dadd init xs"

text \<open>
  \<^verbatim>\<open>calculateSMA\<close>. Past the guard the range \<^verbatim>\<open>[begin, begin + period)\<close> lies in the
  vector, whose size is below \<open>2 ^ 63\<close>.
\<close>

definition calculateSMA :: "analyzer \<Rightarrow> int32 \<Rightarrow> double" where
  "calculateSMA a period =
     (if length (prices a) < size_t_of period then Fin 0
      else ddiv (accumulate (take (nat (sint period)) (prices a)) (Fin 0))
                (double_of_int (sint period)))"

text \<open>The loop of \<^verbatim>\<open>calculateEMA\<close>: \<^verbatim>\<open>for (int i = 1; i < period; i++)\<close>.\<close>

function ema_loop :: "double list \<Rightarrow> double \<Rightarrow> int \<Rightarrow> int \<Rightarrow> double \<Rightarrow> fault + double" where
  "ema_loop ps alpha period i ema =
     (if i < period then
        (case subscript ps i of
           Inl e \<Rightarrow> Inl e
         | Inr p \<Rightarrow>
             ema_loop ps alpha period (i + 1)
               (dadd (dmul alpha p) (dmul (dsub (Fin 1) alpha) ema)))
      else Inr ema)"
  by pat_completeness auto
termination
  by (relation "measure (\<lambda>(ps, alpha, period, i, ema). nat (period - i))") auto

declare ema_loop.simps [simp del]

definition calculateEMA :: "analyzer \<Rightarrow> int32 \<Rightarrow> fault + double" where
  "calculateEMA a period =
     (if length (prices a) < size_t_of period then Inr (Fin 0)
      else
        let alpha = ddiv (Fin 2) (double_of_int (sint (period + 1))) in
        case subscript (prices a) 0 of
          Inl e \<Rightarrow> Inl e
        | Inr ema \<Rightarrow> ema_loop (prices a) alpha (sint period) 1 ema)"

text \<open>The loop of \<^verbatim>\<open>calculateWMA\<close>, returning \<^verbatim>\<open>sum\<close> and \<^verbatim>\<open>weightSum\<close>.\<close>

function wma_loop :: "double list \<Rightarrow> int \<Rightarrow> int \<Rightarrow> double \<Rightarrow> double \<Rightarrow> fault + double \<times> double" where
  "wma_loop ps period i sumv weightSum =
     (if i < period then
        (case subscript ps i of
           Inl e \<Rightarrow> Inl e
         | Inr p \<Rightarrow>
             let weight = double_of_int (period - i) in
             wma_loop ps period (i + 1) (dadd sumv (dmul p weight)) (dadd weightSum weight))
      else Inr (sumv, weightSum))"
  by pat_completeness auto
termination
  by (relation "measure (\<lambda>(ps, period, i, sumv, weightSum). nat (period - i))") auto

declare wma_loop.simps [simp del]

definition calculateWMA :: "analyzer \<Rightarrow> int32 \<Rightarrow> fault + double" where
  "calculateWMA a period =
     (if length (prices a) < size_t_of period then Inr (Fin 0)
      else
        case wma_loop (prices a) (sint period) 0 (Fin 0) (Fin 0) of
          Inl e \<Rightarrow> Inl e
        | Inr (sumv, weightSum) \<Rightarrow> Inr (ddiv sumv weightSum))"

subsection \<open>Volatility\<close>

text \<open>
  The loop of \<^verbatim>\<open>calculateStandardDeviation\<close>: \<^verbatim>\<open>for (int i = 0; i < period; i++)\<close>. The
  exponent of \<^verbatim>\<open>std::pow(prices[i] - mean, 2)\<close> is the \<^verbatim>\<open>int\<close> 2, converted to \<^verbatim>\<open>double\<close>.
\<close>

function sd_loop ::
  "pow_function \<Rightarrow> double list \<Rightarrow> double \<Rightarrow> int \<Rightarrow> int \<Rightarrow> double \<Rightarrow> fault + double" where
  "sd_loop pow ps mean period i sum_sq_diff =
     (if i < period then
        (case subscript ps i of
           Inl e \<Rightarrow> Inl e
         | Inr p \<Rightarrow>
             sd_loop pow ps mean period (i + 1)
               (dadd sum_sq_diff (pow (dsub p mean) (double_of_int 2))))
      else Inr sum_sq_diff)"
  by pat_completeness auto
termination
  by (relation "measure (\<lambda>(pow, ps, mean, period, i, sum_sq_diff). nat (period - i))") auto

declare sd_loop.simps [simp del]

definition calculateStandardDeviation ::
  "pow_function \<Rightarrow> analyzer \<Rightarrow> int32 \<Rightarrow> fault + double" where
  "calculateStandardDeviation pow a period =
     (if length (prices a) < size_t_of period then Inr (Fin 0)
      else
        let mean = calculateSMA a period in
        case sd_loop pow (prices a) mean (sint period) 0 (Fin 0) of
          Inl e \<Rightarrow> Inl e
        | Inr sum_sq_diff \<Rightarrow> Inr (dsqrt (ddiv sum_sq_diff (double_of_int (sint period)))))"

definition calculateBollingerBands ::
  "pow_function \<Rightarrow> analyzer \<Rightarrow> int32 \<Rightarrow> double \<Rightarrow> bool \<Rightarrow> fault + double" where
  "calculateBollingerBands pow a period multiplier upper =
     (let sma = calculateSMA a period in
      case calculateStandardDeviation pow a period of
        Inl e \<Rightarrow> Inl e
      | Inr std_dev \<Rightarrow>
          Inr (if upper then dadd sma (dmul multiplier std_dev)
               else dsub sma (dmul multiplier std_dev)))"

subsection \<open>Trend detection\<close>

definition detectTrend :: "analyzer \<Rightarrow> int32 \<Rightarrow> int32 \<Rightarrow> string" where
  "detectTrend a shortPeriod longPeriod =
     (if length (prices a) < size_t_of longPeriod then ''Insufficient data''
      else
        let shortMA = calculateSMA a shortPeriod;
            longMA = calculateSMA a longPeriod
        in if dless longMA shortMA then ''Uptrend''
           else if dless shortMA longMA then ''Downtrend''
           else ''Sideways'')"

text \<open>
  The loop of \<^verbatim>\<open>calculateRSI\<close>: \<^verbatim>\<open>for (int i = 1; i <= period; i++)\<close>, returning the
  two sums.
\<close>

function rsi_loop :: "double list \<Rightarrow> int \<Rightarrow> int \<Rightarrow> double \<Rightarrow> double \<Rightarrow> fault + double \<times> double" where
  "rsi_loop ps period i avg_gain avg_loss =
     (if i \<le> period then
        (case subscript ps (i - 1) of
           Inl e \<Rightarrow> Inl e
         | Inr p1 \<Rightarrow>
             (case subscript ps i of
                Inl e \<Rightarrow> Inl e
              | Inr p \<Rightarrow>
                  let change = dsub p1 p in
                  if dless (Fin 0) change
                  then rsi_loop ps period (i + 1) (dadd avg_gain change) avg_loss
                  else rsi_loop ps period (i + 1) avg_gain (dsub avg_loss change)))
      else Inr (avg_gain, avg_loss))"
  by pat_completeness auto
termination
  by (relation "measure (\<lambda>(ps, period, i, avg_gain, avg_loss). nat (period + 1 - i))") auto

declare rsi_loop.simps [simp del]

text \<open>
  \<^verbatim>\<open>calculateRSI\<close>. \<^verbatim>\<open>period + 1\<close> is \<^verbatim>\<open>int\<close> arithmetic; at the largest \<^verbatim>\<open>int\<close> the
  model wraps around. The division \<^verbatim>\<open>avg_gain / avg_loss\<close> has no guard.
\<close>

definition calculateRSI :: "analyzer \<Rightarrow> int32 \<Rightarrow> fault + double" where
  "calculateRSI a period =
     (if length (prices a) < size_t_of (period + 1) then Inr (Fin 0)
      else
        case rsi_loop (prices a) (sint period) 1 (Fin 0) (Fin 0) of
          Inl e \<Rightarrow> Inl e
        | Inr (gain, loss) \<Rightarrow>
            let avg_gain = ddiv gain (double_of_int (sint period));
                avg_loss = ddiv loss (double_of_int (sint period));
                rs = ddiv avg_gain avg_loss
            in Inr (dsub (Fin 100) (ddiv (Fin 100) (dadd (Fin 1) rs))))"

subsection \<open>The member functions on the object\<close>

text \<open>
  The indicators are member functions that are not declared \<^verbatim>\<open>const\<close>: their bodies may
  assign the members. Here each of them is a function from the object before the call
  to the value returned and the object after the call. A member is read from the
  object at that point of the body, a call of another member function continues with
  the object that call left, and a loop carries the object through its iterations.
\<close>

definition calculateSMA_member :: "int32 \<Rightarrow> analyzer \<Rightarrow> double \<times> analyzer" where
  "calculateSMA_member period this =
     (if length (prices this) < size_t_of period then (Fin 0, this)
      else (ddiv (accumulate (take (nat (sint period)) (prices this)) (Fin 0))
                 (double_of_int (sint period)), this))"

function ema_loop_member ::
  "double \<Rightarrow> int \<Rightarrow> int \<Rightarrow> double \<Rightarrow> analyzer \<Rightarrow> (fault + double) \<times> analyzer" where
  "ema_loop_member alpha period i ema this =
     (if i < period then
        (case subscript (prices this) i of
           Inl e \<Rightarrow> (Inl e, this)
         | Inr p \<Rightarrow>
             ema_loop_member alpha period (i + 1)
               (dadd (dmul alpha p) (dmul (dsub (Fin 1) alpha) ema)) this)
      else (Inr ema, this))"
  by pat_completeness auto
termination
  by (relation "measure (\<lambda>(alpha, period, i, ema, this). nat (period - i))") auto

declare ema_loop_member.simps [simp del]

definition calculateEMA_member :: "int32 \<Rightarrow> analyzer \<Rightarrow> (fault + double) \<times> analyzer" where
  "calculateEMA_member period this =
     (if length (prices this) < size_t_of period then (Inr (Fin 0), this)
      else
        let alpha = ddiv (Fin 2) (double_of_int (sint (period + 1))) in
        case subscript (prices this) 0 of
          Inl e \<Rightarrow> (Inl e, this)
        | Inr ema \<Rightarrow> ema_loop_member alpha (sint period) 1 ema this)"

function wma_loop_member ::
  "int \<Rightarrow> int \<Rightarrow> double \<Rightarrow> double \<Rightarrow> analyzer \<Rightarrow> (fault + double \<times> double) \<times> analyzer" where
  "wma_loop_member period i sumv weightSum this =
     (if i < period then
        (case subscript (prices this) i of
           Inl e \<Rightarrow> (Inl e, this)
         | Inr p \<Rightarrow>
             let weight = double_of_int (period - i) in
             wma_loop_member period (i + 1) (dadd sumv (dmul p weight)) (dadd weightSum weight)
               this)
      else (Inr (sumv, weightSum), this))"
  by pat_completeness auto
termination
  by (relation "measure (\<lambda>(period, i, sumv, weightSum, this). nat (period - i))") auto

declare wma_loop_member.simps [simp del]

definition calculateWMA_member :: "int32 \<Rightarrow> analyzer \<Rightarrow> (fault + double) \<times> analyzer" where
  "calculateWMA_member period this =
     (if length (prices this) < size_t_of period then (Inr (Fin 0), this)
      else
        case wma_loop_member (sint period) 0 (Fin 0) (Fin 0) this of
          (Inl e, this') \<Rightarrow> (Inl e, this')
        | (Inr (sumv, weightSum), this') \<Rightarrow> (Inr (ddiv sumv weightSum), this'))"

function sd_loop_member ::
  "pow_function \<Rightarrow> double \<Rightarrow> int \<Rightarrow> int \<Rightarrow> double \<Rightarrow> analyzer \<Rightarrow> (fault + double) \<times> analyzer" where
  "sd_loop_member pow mean period i sum_sq_diff this =
     (if i < period then
        (case subscript (prices this) i of
           Inl e \<Rightarrow> (Inl e, this)
         | Inr p \<Rightarrow>
             sd_loop_member pow mean period (i + 1)
               (dadd sum_sq_diff (pow (dsub p mean) (double_of_int 2))) this)
      else (Inr sum_sq_diff, this))"
  by pat_completeness auto
termination
  by (relation "measure (\<lambda>(pow, mean, period, i, sum_sq_diff, this). nat (period - i))") auto

declare sd_loop_member.simps [simp del]

definition calculateStandardDeviation_member ::
  "pow_function \<Rightarrow> int32 \<Rightarrow> analyzer \<Rightarrow> (fault + double) \<times> analyzer" where
  "calculateStandardDeviation_member pow period this =
     (if length (prices this) < size_t_of period then (Inr (Fin 0), this)
      else
        let (mean, this') = calculateSMA_member period this in
        case sd_loop_member pow mean (sint period) 0 (Fin 0) this' of
          (Inl e, this'') \<Rightarrow> (Inl e, this'')
        | (Inr sum_sq_diff, this'') \<Rightarrow>
            (Inr (dsqrt (ddiv sum_sq_diff (double_of_int (sint period)))), this''))"

definition calculateBollingerBands_member ::
  "pow_function \<Rightarrow> int32 \<Rightarrow> double \<Rightarrow> bool \<Rightarrow> analyzer \<Rightarrow> (fault + double) \<times> analyzer" where
  "calculateBollingerBands_member pow period multiplier upper this =
     (let (sma, this') = calculateSMA_member period this in
      case calculateStandardDeviation_member pow period this' of
        (Inl e, this'') \<Rightarrow> (Inl e, this'')
      | (Inr std_dev, this'') \<Rightarrow>
          (Inr (if upper then dadd sma (dmul multiplier std_dev)
                else dsub sma (dmul multiplier std_dev)), this''))"

definition detectTrend_member :: "int32 \<Rightarrow> int32 \<Rightarrow> analyzer \<Rightarrow> string \<times> analyzer" where
  "detectTrend_member shortPeriod longPeriod this =
     (if length (prices this) < size_t_of longPeriod then (''Insufficient data'', this)
      else
        let (shortMA, this') = calculateSMA_member shortPeriod this;
            (longMA, this'') = calculateSMA_member longPeriod this'
        in (if dless longMA shortMA then ''Uptrend''
            else if dless shortMA longMA then ''Downtrend''
            else ''Sideways'', this''))"

function rsi_loop_member ::
  "int \<Rightarrow> int \<Rightarrow> double \<Rightarrow> double \<Rightarrow> analyzer \<Rightarrow> (fault + double \<times> double) \<times> analyzer" where
  "rsi_loop_member period i avg_gain avg_loss this =
     (if i \<le> period then
        (case subscript (prices this) (i - 1) of
           Inl e \<Rightarrow> (Inl e, this)
         | Inr p1 \<Rightarrow>
             (case subscript (prices this) i of
                Inl e \<Rightarrow> (Inl e, this)
              | Inr p \<Rightarrow>
                  let change = dsub p1 p in
                  if dless (Fin 0) change
                  then rsi_loop_member period (i + 1) (dadd avg_gain change) avg_loss this
                  else rsi_loop_member period (i + 1) avg_gain (dsub avg_loss change) this))
      else (Inr (avg_gain, avg_loss), this))"
  by pat_completeness auto
termination
  by (relation "measure (\<lambda>(period, i, avg_gain, avg_loss, this). nat (period + 1 - i))") auto

declare rsi_loop_member.simps [simp del]

definition calculateRSI_member :: "int32 \<Rightarrow> analyzer \<Rightarrow> (fault + double) \<times> analyzer" where
  "calculateRSI_member period this =
     (if length (prices this) < size_t_of (period + 1) then (Inr (Fin 0), this)
      else
        case rsi_loop_member (sint period) 1 (Fin 0) (Fin 0) this of
          (Inl e, this') \<Rightarrow> (Inl e, this')
        | (Inr (gain, loss), this') \<Rightarrow>
            let avg_gain = ddiv gain (double_of_int (sint period));
                avg_loss = ddiv loss (double_of_int (sint period));
                rs = ddiv avg_gain avg_loss
            in (Inr (dsub (Fin 100) (ddiv (Fin 100) (dadd (Fin 1) rs))), this'))"

text \<open>A call of an indicator on the object: its result and the object it leaves.\<close>

datatype call =
    SMA int32
  | EMA int32
  | WMA int32
  | StandardDeviation int32
  | BollingerBands int32 double bool
  | Trend int32 int32
  | RSI int32

datatype outcome = Number double | Label string | Fault fault

fun number :: "fault + double \<Rightarrow> outcome" where
  "number (Inl e) = Fault e"
| "number (Inr x) = Number x"

fun exec :: "pow_function \<Rightarrow> call \<Rightarrow> analyzer \<Rightarrow> outcome \<times> analyzer" where
  "exec pow (SMA period) a = apfst Number (calculateSMA_member period a)"
| "exec pow (EMA period) a = apfst number (calculateEMA_member period a)"
| "exec pow (WMA period) a = apfst number (calculateWMA_member period a)"
| "exec pow (StandardDeviation period) a =
     apfst number (calculateStandardDeviation_member pow period a)"
| "exec pow (BollingerBands period multiplier upper) a =
     apfst number (calculateBollingerBands_member pow period multiplier upper a)"
| "exec pow (Trend shortPeriod longPeriod) a =
     apfst Label (detectTrend_member shortPeriod longPeriod a)"
| "exec pow (RSI period) a = apfst number (calculateRSI_member period a)"

text \<open>A sequence of calls, each on the object the call before it left.\<close>

fun exec_all :: "pow_function \<Rightarrow> call list \<Rightarrow> analyzer \<Rightarrow> outcome list \<times> analyzer" where
  "exec_all pow [] a = ([], a)"
| "exec_all pow (c # cs) a =
     (let (r, a') = exec pow c a; (rs, a'') = exec_all pow cs a' in (r # rs, a''))"

text \<open>What a call returns, by the functions of the sections above.\<close>

fun returned :: "pow_function \<Rightarrow> call \<Rightarrow> analyzer \<Rightarrow> outcome" where
  "returned pow (SMA period) a = Number (calculateSMA a period)"
| "returned pow (EMA period) a = number (calculateEMA a period)"
| "returned pow (WMA period) a = number (calculateWMA a period)"
| "returned pow (StandardDeviation period) a = number (calculateStandardDeviation pow a period)"
| "returned pow (BollingerBands period multiplier upper) a =
     number (calculateBollingerBands pow a period multiplier upper)"
| "returned pow (Trend shortPeriod longPeriod) a = Label (detectTrend a shortPeriod longPeriod)"
| "returned pow (RSI period) a = number (calculateRSI a period)"

section \<open>Sample inputs\<close>

text \<open>An analyzer holding two prices, the newest first.\<close>

definition two_prices :: analyzer where
  "two_prices = \<lparr>api_key = ''key'', symbol = ''IBM'', update_interval = 60,
     prices = [Fin 10, Fin 11], timestamps = [0, 60000]\<rparr>"

definition three_prices :: analyzer where
  "three_prices = two_prices\<lparr>prices := [Fin 10, Fin 11, Fin 12], timestamps := [0, 60000, 120000]\<rparr>"

text \<open>Three prices, each above the one before it in time.\<close>

definition gaining_prices :: analyzer where
  "gaining_prices = two_prices\<lparr>prices := [Fin 3, Fin 2, Fin 1], timestamps := [0, 1, 2]\<rparr>"

text \<open>
  The \<^verbatim>\<open>double\<close> nearest to one tenth, \<^verbatim>\<open>0.1\<close>, and two prices equal to it.
\<close>

definition tenth :: rat where
  "tenth = 3602879701896397 / 36028797018963968"

definition tenth_prices :: analyzer where
  "tenth_prices = two_prices\<lparr>prices := [Fin tenth, Fin tenth], timestamps := [0, 1]\<rparr>"

text \<open>Three prices equal to \<^verbatim>\<open>189.25\<close>.\<close>

definition quarter_prices :: analyzer where
  "quarter_prices = two_prices\<lparr>prices := [Fin (757 / 4), Fin (757 / 4), Fin (757 / 4)],
     timestamps := [0, 1, 2]\<rparr>"

text \<open>The constant series of the specification's example for the trend.\<close>

definition flat_prices :: analyzer where
  "flat_prices = two_prices\<lparr>prices := [Fin 10, Fin 10, Fin 10, Fin 10], timestamps := [0, 1, 2, 3]\<rparr>"

text \<open>Two prices around the mean 2, with standard deviation 1.\<close>

definition spread_prices :: analyzer where
  "spread_prices = two_prices\<lparr>prices := [Fin 3, Fin 1], timestamps := [0, 1]\<rparr>"

text \<open>
  A \<^verbatim>\<open>std::pow\<close> for the concrete inputs: at the exponent 2 it is the correctly rounded
  square. The squares taken below are those of 1 and of \<open>- 1\<close>, which are exact.
\<close>

definition pow_square :: pow_function where
  "pow_square x y = (if y = Fin 2 then dmul x x else NaN)"

text \<open>
  A library for concrete payloads: \<^verbatim>\<open>json::parse\<close> returns the given value, the
  conversion to a \<^verbatim>\<open>double\<close> accepts the strings of decimal digits (below \<open>2 ^ 53\<close>),
  on which it is \<^verbatim>\<open>std::stod\<close>, and rejects the strings used here that hold no number;
  every timestamp is 0.
\<close>

definition digits_value :: "string \<Rightarrow> nat" where
  "digits_value s = foldl (\<lambda>n c. 10 * n + (of_char c - 48)) 0 s"

definition stod_digits :: "string \<Rightarrow> exception + double" where
  "stod_digits s =
     (if s \<noteq> [] \<and> set s \<subseteq> set ''0123456789''
      then Inr (Fin (of_nat (digits_value s))) else Inl InvalidArgument)"

definition library_returning :: "json \<Rightarrow> library" where
  "library_returning j =
     \<lparr>json_parse = (\<lambda>data. Inr j), stod = stod_digits, to_millis = (\<lambda>timestamp. 0)\<rparr>"

definition payload :: "(string \<times> json) list \<Rightarrow> json" where
  "payload entries =
     JObject [(''Meta Data'', JObject []), (''Time Series (1min)'', JObject entries)]"

definition entry :: "string \<Rightarrow> json" where
  "entry s = JObject [(''1. open'', JString s), (''4. close'', JString s)]"

text \<open>Three records of one time series, in the order of their keys.\<close>

definition three_records :: "(string \<times> json) list" where
  "three_records =
     [(''2024-01-02 09:30:00'', entry ''101''), (''2024-01-02 09:31:00'', entry ''102''),
      (''2024-01-02 09:32:00'', entry ''103'')]"

section \<open>The exponential average as a recurrence\<close>

text \<open>
  The recurrence in the words of the specification: \<open>ema\<^sub>0 = price\<^sub>0\<close> and
  \<open>ema\<^sub>i = \<alpha> * price\<^sub>i + (1 - \<alpha>) * ema\<^sub>i\<^sub>-\<^sub>1\<close>, with \<open>\<alpha> = 2 / (period + 1)\<close>, read at
  \<open>i = period - 1\<close>.
\<close>

fun ema_rec :: "double \<Rightarrow> double list \<Rightarrow> nat \<Rightarrow> double" where
  "ema_rec alpha ps 0 = ps ! 0"
| "ema_rec alpha ps (Suc i) =
     dadd (dmul alpha (ps ! Suc i)) (dmul (dsub (Fin 1) alpha) (ema_rec alpha ps i))"

definition ema_spec :: "double list \<Rightarrow> int \<Rightarrow> double" where
  "ema_spec ps period =
     ema_rec (ddiv (Fin 2) (double_of_int (period + 1))) ps (nat period - 1)"

section \<open>The relative strength index as a formula\<close>

text \<open>
  The index in the words of the specification. The change at index \<open>i\<close> is
  \<open>price\<^sub>i\<^sub>-\<^sub>1 - price\<^sub>i\<close>; over the indices \<open>1..period\<close> the positive changes are summed
  into the gain and the magnitudes of the negative changes into the loss; each sum is
  divided by the period, and the index is \<open>100 - 100 / (1 + avg_gain / avg_loss)\<close>.
\<close>

definition price_change :: "double list \<Rightarrow> nat \<Rightarrow> double" where
  "price_change ps i = dsub (ps ! (i - 1)) (ps ! i)"

definition gain_sum :: "double list \<Rightarrow> nat \<Rightarrow> double \<Rightarrow> double" where
  "gain_sum ps i g = (if dless (Fin 0) (price_change ps i) then dadd g (price_change ps i) else g)"

definition loss_sum :: "double list \<Rightarrow> nat \<Rightarrow> double \<Rightarrow> double" where
  "loss_sum ps i l = (if dless (price_change ps i) (Fin 0) then dadd l (dabs (price_change ps i)) else l)"

definition rsi_spec :: "double list \<Rightarrow> nat \<Rightarrow> double" where
  "rsi_spec ps period =
     (let avg_gain = ddiv (fold (gain_sum ps) [1..<Suc period] (Fin 0)) (double_of_int (int period));
          avg_loss = ddiv (fold (loss_sum ps) [1..<Suc period] (Fin 0)) (double_of_int (int period))
      in dsub (Fin 100) (ddiv (Fin 100) (dadd (Fin 1) (ddiv avg_gain avg_loss))))"

definition all_gaining :: "double list \<Rightarrow> nat \<Rightarrow> bool" where
  "all_gaining ps period = list_all (\<lambda>i. dless (Fin 0) (price_change ps i)) [1..<Suc period]"

section \<open>The weights of the weighted average\<close>

text \<open>The sum of the weights \<open>1..n\<close>.\<close>

definition triangle :: "int \<Rightarrow> int" where
  "triangle n = n * (n + 1) div 2"

section \<open>Basic facts\<close>


subsection \<open>Periods and sizes\<close>

lemma sint32_bounds: "- 2147483648 \<le> sint (p :: int32) \<and> sint p < 2147483648"
  using sint_ge [of p] sint_lt [of p] by simp

lemma size_t_of_nonneg: "0 \<le> sint p \<Longrightarrow> size_t_of p = nat (sint p)"
  using sint32_bounds [of p] by (simp add: size_t_of_def)

lemma size_t_of_neg: "sint p < 0 \<Longrightarrow> 2 ^ 63 \<le> size_t_of p"
proof -
  assume neg: "sint p < 0"
  have "sint p mod 2 ^ 64 = sint p + 2 ^ 64"
    using sint32_bounds [of p] neg
    by (intro mod_pos_pos_trivial[THEN trans[OF mod_add_self2[symmetric]]]) simp_all
  then show ?thesis
    using sint32_bounds [of p] by (simp add: size_t_of_def) arith
qed

lemma sint_succ: "sint (p :: int32) < 2147483647 \<Longrightarrow> sint (p + 1) = sint p + 1"
  using sint32_bounds [of p]
  by (simp add: sint_word_ariths signed_take_bit_int_eq_self)

lemma sint_succ_max: "sint (p :: int32) = 2147483647 \<Longrightarrow> sint (p + 1) = - 2147483648"
  by (simp add: sint_word_ariths signed_take_bit_eq_take_bit_minus take_bit_eq_mod bit_iff_odd)

lemma guard_short: "int (length ps) < sint period \<Longrightarrow> length ps < size_t_of period"
  by (simp add: size_t_of_nonneg)

lemma guard_long:
  "0 \<le> sint period \<Longrightarrow> sint period \<le> int (length ps) \<Longrightarrow> \<not> length ps < size_t_of period"
  by (simp add: size_t_of_nonneg)

lemma guard_rsi_short:
  assumes "int (length ps) \<le> sint period"
  shows "length ps < size_t_of (period + 1)"
proof (cases "sint period < 2147483647")
  case True
  then show ?thesis using assms by (simp add: size_t_of_nonneg sint_succ)
next
  case False
  then have "sint period = 2147483647" using sint32_bounds [of period] by simp
  then have "sint (period + 1) < 0" by (simp add: sint_succ_max)
  then have "2 ^ 63 \<le> size_t_of (period + 1)" by (rule size_t_of_neg)
  moreover have "length ps < 2 ^ 63" using assms sint32_bounds [of period] by simp
  ultimately show ?thesis by simp
qed

section \<open>Insufficient data\<close>

lemma bollinger_zero:
  "is_finite m \<Longrightarrow>
   dadd (Fin 0) (dmul m (Fin 0)) = Fin 0 \<and> dsub (Fin 0) (dmul m (Fin 0)) = Fin 0"
  by (cases m) (simp_all add: dmul_def dsub_def signed_zero_def)

text \<open>
  C1, as the code has it. On a series shorter than the period (for \<^verbatim>\<open>calculateRSI\<close>: not
  longer than the period) every indicator returns the positive zero and no read
  faults; this includes the empty series. For \<^verbatim>\<open>calculateBollingerBands\<close> the result is
  \<open>0 \<plusminus> multiplier * 0\<close>, which is zero for every finite multiplier, on both bands.
\<close>

theorem insufficient_data_returns_zero:
  "(int (length (prices a)) < sint period \<longrightarrow>
      calculateSMA a period = Fin 0 \<and>
      calculateEMA a period = Inr (Fin 0) \<and>
      calculateWMA a period = Inr (Fin 0) \<and>
      calculateStandardDeviation pow a period = Inr (Fin 0) \<and>
      (is_finite multiplier \<longrightarrow>
         calculateBollingerBands pow a period multiplier True = Inr (Fin 0) \<and>
         calculateBollingerBands pow a period multiplier False = Inr (Fin 0))) \<and>
   (int (length (prices a)) \<le> sint period \<longrightarrow> calculateRSI a period = Inr (Fin 0))"
proof (intro conjI impI)
  assume short: "int (length (prices a)) < sint period"
  then have g: "length (prices a) < size_t_of period" by (rule guard_short)
  show sma: "calculateSMA a period = Fin 0" using g by (simp add: calculateSMA_def)
  show "calculateEMA a period = Inr (Fin 0)" using g by (simp add: calculateEMA_def)
  show "calculateWMA a period = Inr (Fin 0)" using g by (simp add: calculateWMA_def)
  show sd: "calculateStandardDeviation pow a period = Inr (Fin 0)"
    using g by (simp add: calculateStandardDeviation_def)
  assume fin: "is_finite multiplier"
  show "calculateBollingerBands pow a period multiplier True = Inr (Fin 0)"
    using sma sd bollinger_zero [OF fin] by (simp add: calculateBollingerBands_def)
  show "calculateBollingerBands pow a period multiplier False = Inr (Fin 0)"
    using sma sd bollinger_zero [OF fin] by (simp add: calculateBollingerBands_def)
next
  assume "int (length (prices a)) \<le> sint period"
  then have "length (prices a) < size_t_of (period + 1)" by (rule guard_rsi_short)
  then show "calculateRSI a period = Inr (Fin 0)" by (simp add: calculateRSI_def)
qed

text \<open>The theorem at two prices, period 5 (period 2 for the RSI) and multiplier 2.\<close>

theorem insufficient_data_returns_zero_witness:
  "int (length (prices two_prices)) < sint (5 :: int32) \<and>
   is_finite (Fin 2) \<and>
   int (length (prices two_prices)) \<le> sint (2 :: int32) \<and>
   calculateSMA two_prices 5 = Fin 0 \<and>
   calculateEMA two_prices 5 = Inr (Fin 0) \<and>
   calculateWMA two_prices 5 = Inr (Fin 0) \<and>
   calculateStandardDeviation pow_square two_prices 5 = Inr (Fin 0) \<and>
   calculateBollingerBands pow_square two_prices 5 (Fin 2) True = Inr (Fin 0) \<and>
   calculateBollingerBands pow_square two_prices 5 (Fin 2) False = Inr (Fin 0) \<and>
   calculateRSI two_prices 2 = Inr (Fin 0)"
  using insufficient_data_returns_zero [of two_prices 5 pow_square "Fin 2"]
    insufficient_data_returns_zero [of two_prices 2 pow_square "Fin 2"]
  by (simp add: two_prices_def)

text \<open>
  C1 as stated fails for a multiplier that is not finite: on the empty series, with
  period 1 and an infinite multiplier, the upper band is \<open>0 + \<infinity> * 0\<close>, the NaN.
\<close>

theorem bollinger_infinite_multiplier_counterexample:
  "int (length (prices (two_prices\<lparr>prices := []\<rparr>))) < sint (1 :: int32) \<and>
   calculateBollingerBands pow_square (two_prices\<lparr>prices := []\<rparr>) 1 PlusInf True = Inr NaN"
  by (simp add: calculateBollingerBands_def calculateSMA_def calculateStandardDeviation_def
      size_t_of_def dmul_def two_prices_def)

section \<open>Construction of the series\<close>

lemma parse_entries_Inr:
  "parse_entries L es ps ts = Inr (ps', ts') \<Longrightarrow>
   length ps' = length ps + length es \<and> length ts' = length ts + length es \<and>
   take (length ps) ps' = ps \<and> take (length ts) ts' = ts \<and>
   (\<forall>i < length es. \<exists>c s timestamp.
       member_at (snd (es ! i)) ''4. close'' = Inr c \<and> get_string c = Inr s \<and>
       stod L s = Inr (ps' ! (length ps + i)) \<and> fst (es ! i) = Some timestamp \<and>
       ts' ! (length ts + i) = to_millis L timestamp)"
proof (induction es arbitrary: ps ts)
  case Nil
  then show ?case by simp
next
  case (Cons e es)
  obtain key v where e: "e = (key, v)" by (cases e)
  from Cons.prems e obtain c s price timestamp where
    st: "member_at v ''4. close'' = Inr c" "get_string c = Inr s" "stod L s = Inr price"
        "key = Some timestamp"
    and rest: "parse_entries L es (ps @ [price]) (ts @ [to_millis L timestamp]) = Inr (ps', ts')"
    by (simp split: sum.splits option.splits)
  note IH = Cons.IH [OF rest]
  have tk: "take (Suc (length ps)) ps' = ps @ [price]" using IH by simp
  have "take (length ps) ps' = take (length ps) (take (Suc (length ps)) ps')"
    by (simp add: min_def)
  also have "\<dots> = ps" by (simp only: tk) simp
  finally have tk0: "take (length ps) ps' = ps" .
  have "ps' ! length ps = take (Suc (length ps)) ps' ! length ps" by simp
  also have "\<dots> = price" by (simp only: tk) simp
  finally have p0: "ps' ! length ps = price" .
  have tt: "take (Suc (length ts)) ts' = ts @ [to_millis L timestamp]" using IH by simp
  have "take (length ts) ts' = take (length ts) (take (Suc (length ts)) ts')"
    by (simp add: min_def)
  also have "\<dots> = ts" by (simp only: tt) simp
  finally have tt0: "take (length ts) ts' = ts" .
  have "ts' ! length ts = take (Suc (length ts)) ts' ! length ts" by simp
  also have "\<dots> = to_millis L timestamp" by (simp only: tt) simp
  finally have t0: "ts' ! length ts = to_millis L timestamp" .
  show ?case
  proof (intro conjI allI impI)
    show "length ps' = length ps + length (e # es)" using IH by simp
    show "length ts' = length ts + length (e # es)" using IH by simp
    show "take (length ps) ps' = ps" by (rule tk0)
    show "take (length ts) ts' = ts" by (rule tt0)
    fix i assume i: "i < length (e # es)"
    show "\<exists>c s timestamp.
       member_at (snd ((e # es) ! i)) ''4. close'' = Inr c \<and> get_string c = Inr s \<and>
       stod L s = Inr (ps' ! (length ps + i)) \<and> fst ((e # es) ! i) = Some timestamp \<and>
       ts' ! (length ts + i) = to_millis L timestamp"
    proof (cases i)
      case 0
      then show ?thesis using st e p0 t0 by simp
    next
      case (Suc k)
      then have "k < length es" using i by simp
      then show ?thesis using IH Suc by simp
    qed
  qed
qed

lemma parse_entries_returns:
  "(\<forall>i < length es. \<exists>c s price timestamp.
       member_at (snd (es ! i)) ''4. close'' = Inr c \<and> get_string c = Inr s \<and>
       stod L s = Inr price \<and> fst (es ! i) = Some timestamp) \<Longrightarrow>
   \<exists>ps' ts'. parse_entries L es ps ts = Inr (ps', ts')"
proof (induction es arbitrary: ps ts)
  case Nil
  show ?case by simp
next
  case (Cons e es)
  obtain key v where e: "e = (key, v)" by (cases e)
  have "0 < length (e # es)" by simp
  with Cons.prems obtain c s price timestamp where
    st: "member_at v ''4. close'' = Inr c" "get_string c = Inr s" "stod L s = Inr price"
        "key = Some timestamp"
    using e by fastforce
  have "\<forall>i < length es. \<exists>c s price timestamp.
       member_at (snd (es ! i)) ''4. close'' = Inr c \<and> get_string c = Inr s \<and>
       stod L s = Inr price \<and> fst (es ! i) = Some timestamp"
  proof (intro allI impI)
    fix i assume "i < length es"
    then have "Suc i < length (e # es)" by simp
    with Cons.prems show "\<exists>c s price timestamp.
       member_at (snd (es ! i)) ''4. close'' = Inr c \<and> get_string c = Inr s \<and>
       stod L s = Inr price \<and> fst (es ! i) = Some timestamp"
      by fastforce
  qed
  from Cons.IH [OF this]
  obtain ps' ts' where
    "parse_entries L es (ps @ [price]) (ts @ [to_millis L timestamp]) = Inr (ps', ts')"
    by blast
  then show ?case using st e by simp
qed

text \<open>
  C2, as the code has it. \<^verbatim>\<open>parseData\<close> validates nothing and drops nothing. When it
  returns, the payload parsed, only the prices and the timestamps of the analyzer have
  changed, and the series holds one price and one timestamp for every record of the
  time series, in the order of iteration, each price being what \<^verbatim>\<open>std::stod\<close> made of the
  record's close. And it does return whenever the payload parses and every record of
  the time series has a key and a close that is a string \<^verbatim>\<open>std::stod\<close> accepts: a payload
  of \<open>n\<close> such records gives a series of length \<open>n\<close>, the empty series when \<open>n = 0\<close>.
\<close>

theorem parseData_keeps_every_record:
  "(parseData L a data = Inr a' \<longrightarrow>
      (\<exists>j time_series.
         json_parse L data = Inr j \<and>
         member_at j ''Time Series (1min)'' = Inr time_series \<and>
         a' = a\<lparr>prices := prices a', timestamps := timestamps a'\<rparr> \<and>
         length (prices a') = length (items time_series) \<and>
         length (timestamps a') = length (items time_series) \<and>
         (\<forall>i < length (items time_series). \<exists>c s timestamp.
             member_at (snd (items time_series ! i)) ''4. close'' = Inr c \<and>
             get_string c = Inr s \<and> stod L s = Inr (prices a' ! i) \<and>
             fst (items time_series ! i) = Some timestamp \<and>
             timestamps a' ! i = to_millis L timestamp))) \<and>
   (json_parse L data = Inr j \<and>
    member_at j ''Time Series (1min)'' = Inr time_series \<and>
    (\<forall>i < length (items time_series). \<exists>c s price timestamp.
        member_at (snd (items time_series ! i)) ''4. close'' = Inr c \<and>
        get_string c = Inr s \<and> stod L s = Inr price \<and>
        fst (items time_series ! i) = Some timestamp) \<longrightarrow>
      (\<exists>ps ts.
         parseData L a data = Inr (a\<lparr>prices := ps, timestamps := ts\<rparr>) \<and>
         length ps = length (items time_series) \<and>
         length ts = length (items time_series)))"
proof (intro conjI impI)
  assume "parseData L a data = Inr a'"
  then obtain j time_series ps ts where
    j: "json_parse L data = Inr j" "member_at j ''Time Series (1min)'' = Inr time_series"
    and pe: "parse_entries L (items time_series) [] [] = Inr (ps, ts)"
    and a': "a' = a\<lparr>prices := ps, timestamps := ts\<rparr>"
    by (auto simp add: parseData_def split: sum.splits)
  from parse_entries_Inr [OF pe] j a'
  show "\<exists>j time_series.
         json_parse L data = Inr j \<and>
         member_at j ''Time Series (1min)'' = Inr time_series \<and>
         a' = a\<lparr>prices := prices a', timestamps := timestamps a'\<rparr> \<and>
         length (prices a') = length (items time_series) \<and>
         length (timestamps a') = length (items time_series) \<and>
         (\<forall>i < length (items time_series). \<exists>c s timestamp.
             member_at (snd (items time_series ! i)) ''4. close'' = Inr c \<and>
             get_string c = Inr s \<and> stod L s = Inr (prices a' ! i) \<and>
             fst (items time_series ! i) = Some timestamp \<and>
             timestamps a' ! i = to_millis L timestamp)"
    by simp
next
  assume h: "json_parse L data = Inr j \<and>
    member_at j ''Time Series (1min)'' = Inr time_series \<and>
    (\<forall>i < length (items time_series). \<exists>c s price timestamp.
        member_at (snd (items time_series ! i)) ''4. close'' = Inr c \<and>
        get_string c = Inr s \<and> stod L s = Inr price \<and>
        fst (items time_series ! i) = Some timestamp)"
  then have j: "json_parse L data = Inr j" "member_at j ''Time Series (1min)'' = Inr time_series"
    by blast+
  from h have "\<forall>i < length (items time_series). \<exists>c s price timestamp.
        member_at (snd (items time_series ! i)) ''4. close'' = Inr c \<and>
        get_string c = Inr s \<and> stod L s = Inr price \<and>
        fst (items time_series ! i) = Some timestamp" by blast
  from parse_entries_returns [OF this]
  obtain ps ts where pe: "parse_entries L (items time_series) [] [] = Inr (ps, ts)" by blast
  have "parseData L a data = Inr (a\<lparr>prices := ps, timestamps := ts\<rparr>)"
    using j pe by (simp add: parseData_def)
  moreover have "length ps = length (items time_series)" "length ts = length (items time_series)"
    using parse_entries_Inr [OF pe] by simp_all
  ultimately show "\<exists>ps ts.
         parseData L a data = Inr (a\<lparr>prices := ps, timestamps := ts\<rparr>) \<and>
         length ps = length (items time_series) \<and>
         length ts = length (items time_series)"
    by blast
qed

lemma stod_samples:
  "stod_digits ''101'' = Inr (Fin 101)" "stod_digits ''102'' = Inr (Fin 102)"
  "stod_digits ''103'' = Inr (Fin 103)"
  by (simp_all add: stod_digits_def digits_value_def)

lemma parse_three:
  "parseData (library_returning (payload three_records)) two_prices ''''
   = Inr (two_prices\<lparr>prices := [Fin 101, Fin 102, Fin 103], timestamps := [0, 0, 0]\<rparr>)"
  by (simp add: parseData_def library_returning_def payload_def three_records_def entry_def
      stod_samples)

lemma three_records_well_formed:
  "\<forall>i < length (items (JObject three_records)). \<exists>c s price timestamp.
      member_at (snd (items (JObject three_records) ! i)) ''4. close'' = Inr c \<and>
      get_string c = Inr s \<and> stod (library_returning (payload three_records)) s = Inr price \<and>
      fst (items (JObject three_records) ! i) = Some timestamp"
proof -
  have "list_all (\<lambda>e. \<exists>c s price timestamp.
      member_at (snd e) ''4. close'' = Inr c \<and>
      get_string c = Inr s \<and> stod (library_returning (payload three_records)) s = Inr price \<and>
      fst e = Some timestamp) (items (JObject three_records))"
    by (simp add: three_records_def entry_def library_returning_def stod_samples)
  then show ?thesis by (simp only: list_all_length)
qed

text \<open>
  The theorem at a payload of three records, whose closes are \<^verbatim>\<open>101\<close>, \<^verbatim>\<open>102\<close> and
  \<^verbatim>\<open>103\<close>: the series has the three prices, in the order of the records.
\<close>

theorem parseData_keeps_every_record_witness:
  "parseData (library_returning (payload three_records)) two_prices ''''
     = Inr (two_prices\<lparr>prices := [Fin 101, Fin 102, Fin 103], timestamps := [0, 0, 0]\<rparr>) \<and>
   json_parse (library_returning (payload three_records)) '''' = Inr (payload three_records) \<and>
   member_at (payload three_records) ''Time Series (1min)'' = Inr (JObject three_records) \<and>
   length (items (JObject three_records)) = 3 \<and>
   (\<exists>ps ts.
      parseData (library_returning (payload three_records)) two_prices ''''
        = Inr (two_prices\<lparr>prices := ps, timestamps := ts\<rparr>) \<and>
      length ps = length (items (JObject three_records)) \<and>
      length ts = length (items (JObject three_records))) \<and>
   (\<exists>j time_series.
      json_parse (library_returning (payload three_records)) '''' = Inr j \<and>
      member_at j ''Time Series (1min)'' = Inr time_series \<and>
      length (prices (two_prices\<lparr>prices := [Fin 101, Fin 102, Fin 103],
        timestamps := [0, 0, 0]\<rparr>)) = length (items time_series))"
proof -
  have j: "json_parse (library_returning (payload three_records)) ''''
      = Inr (payload three_records)"
    by (simp add: library_returning_def)
  have m: "member_at (payload three_records) ''Time Series (1min)'' = Inr (JObject three_records)"
    by (simp add: payload_def)
  have n: "length (items (JObject three_records)) = 3" by (simp add: three_records_def)
  note returns = parseData_keeps_every_record [of _ _ _ _ "payload three_records"
      "JObject three_records", THEN conjunct2, THEN mp]
  have r: "\<exists>ps ts.
      parseData (library_returning (payload three_records)) two_prices ''''
        = Inr (two_prices\<lparr>prices := ps, timestamps := ts\<rparr>) \<and>
      length ps = length (items (JObject three_records)) \<and>
      length ts = length (items (JObject three_records))"
    using j m three_records_well_formed by (intro returns conjI)
  note holds = parseData_keeps_every_record [THEN conjunct1, THEN mp, OF parse_three]
  have k: "\<exists>j time_series.
      json_parse (library_returning (payload three_records)) '''' = Inr j \<and>
      member_at j ''Time Series (1min)'' = Inr time_series \<and>
      length (prices (two_prices\<lparr>prices := [Fin 101, Fin 102, Fin 103],
        timestamps := [0, 0, 0]\<rparr>)) = length (items time_series)"
    using holds by blast
  show ?thesis using parse_three j m n r k by (intro conjI)
qed

text \<open>
  C2 as stated fails. A record without a close does not leave a series of the valid
  records behind: \<^verbatim>\<open>get<std::string>()\<close> raises and the construction is aborted, whether
  the record comes first or last; so does a close that holds no number, by
  \<^verbatim>\<open>std::stod\<close>. And a time series with no record gives the empty series, not an error.
\<close>

theorem parseData_counterexample:
  "parseData (library_returning (payload [(''2024-01-02 09:30:00'', JObject []),
       (''2024-01-02 09:31:00'', entry ''101'')])) two_prices '''' = Inl TypeError \<and>
   parseData (library_returning (payload [(''2024-01-02 09:30:00'', entry ''101''),
       (''2024-01-02 09:31:00'', JObject [])])) two_prices '''' = Inl TypeError \<and>
   parseData (library_returning (payload [(''2024-01-02 09:30:00'', entry ''abc''),
       (''2024-01-02 09:31:00'', entry ''101'')])) two_prices '''' = Inl InvalidArgument \<and>
   parseData (library_returning (payload [])) two_prices ''''
     = Inr (two_prices\<lparr>prices := [], timestamps := []\<rparr>)"
  by (simp add: parseData_def library_returning_def payload_def entry_def stod_digits_def
      digits_value_def)

section \<open>The trend\<close>

lemma rnd_is_not_nan: "\<not> is_nan (rnd q)"
  by (simp add: rnd_def Let_def)

lemma dadd_finite_not_nan: "\<not> is_nan x \<Longrightarrow> is_finite y \<Longrightarrow> \<not> is_nan (dadd x y)"
  by (cases x; cases y) (simp_all add: rnd_is_not_nan)

lemma accumulate_not_nan:
  "\<forall>p \<in> set xs. is_finite p \<Longrightarrow> \<not> is_nan init \<Longrightarrow> \<not> is_nan (accumulate xs init)"
  unfolding accumulate_def
  by (induction xs arbitrary: init) (simp_all add: dadd_finite_not_nan)

lemma ddiv_int_not_nan: "\<not> is_nan x \<Longrightarrow> n \<noteq> 0 \<Longrightarrow> \<not> is_nan (ddiv x (double_of_int n))"
  by (cases x)
    (simp_all add: ddiv_def double_of_int_def rnd_is_not_nan signed_inf_def signed_zero_def)

lemma calculateSMA_not_nan:
  assumes "\<forall>p \<in> set (prices a). is_finite p" "0 < sint period"
  shows "\<not> is_nan (calculateSMA a period)"
proof -
  have "\<forall>p \<in> set (take (nat (sint period)) (prices a)). is_finite p"
    using assms(1) by (meson in_set_takeD)
  then have "\<not> is_nan (accumulate (take (nat (sint period)) (prices a)) (Fin 0))"
    by (rule accumulate_not_nan) simp
  then show ?thesis
    using assms(2) by (simp add: calculateSMA_def ddiv_int_not_nan)
qed

lemma dless_asym: "dless x y \<Longrightarrow> \<not> dless y x"
  by (cases x; cases y) simp_all

lemma dless_deq: "\<not> is_nan x \<Longrightarrow> \<not> is_nan y \<Longrightarrow> (\<not> dless x y \<and> \<not> dless y x) = deq x y"
  by (cases x; cases y) auto

text \<open>
  C3. The periods are positive and the prices finite, as the data model of the
  specification has them. If the series is shorter than \<open>longPeriod\<close> the result is
  \<^verbatim>\<open>Insufficient data\<close>; otherwise it is \<^verbatim>\<open>Uptrend\<close> exactly when \<open>SMA(shortPeriod)\<close> is
  greater than \<open>SMA(longPeriod)\<close>, \<^verbatim>\<open>Downtrend\<close> exactly when it is less, and \<^verbatim>\<open>Sideways\<close>
  exactly when the two are equal (\<^verbatim>\<open>==\<close> on \<^verbatim>\<open>double\<close>, no tolerance).
\<close>

theorem trend_classification:
  assumes "list_all is_finite (prices a)" "0 < sint shortPeriod" "0 < sint longPeriod"
  shows
    "(int (length (prices a)) < sint longPeriod \<longrightarrow>
        detectTrend a shortPeriod longPeriod = ''Insufficient data'') \<and>
     (sint longPeriod \<le> int (length (prices a)) \<longrightarrow>
        (detectTrend a shortPeriod longPeriod = ''Uptrend'' \<longleftrightarrow>
           dless (calculateSMA a longPeriod) (calculateSMA a shortPeriod)) \<and>
        (detectTrend a shortPeriod longPeriod = ''Downtrend'' \<longleftrightarrow>
           dless (calculateSMA a shortPeriod) (calculateSMA a longPeriod)) \<and>
        (detectTrend a shortPeriod longPeriod = ''Sideways'' \<longleftrightarrow>
           deq (calculateSMA a shortPeriod) (calculateSMA a longPeriod)) \<and>
        detectTrend a shortPeriod longPeriod \<noteq> ''Insufficient data'')"
proof (intro conjI impI)
  assume "int (length (prices a)) < sint longPeriod"
  then have "length (prices a) < size_t_of longPeriod"
    by (simp add: size_t_of_nonneg)
  then show "detectTrend a shortPeriod longPeriod = ''Insufficient data''"
    by (simp add: detectTrend_def)
next
  assume long: "sint longPeriod \<le> int (length (prices a))"
  then have g: "\<not> length (prices a) < size_t_of longPeriod"
    using assms(3) by (simp add: size_t_of_nonneg)
  let ?s = "calculateSMA a shortPeriod" and ?l = "calculateSMA a longPeriod"
  have nn: "\<not> is_nan ?s" "\<not> is_nan ?l"
    using assms by (simp_all add: calculateSMA_not_nan list_all_iff)
  show "detectTrend a shortPeriod longPeriod = ''Uptrend'' \<longleftrightarrow> dless ?l ?s"
    using g by (simp add: detectTrend_def Let_def)
  show "detectTrend a shortPeriod longPeriod = ''Downtrend'' \<longleftrightarrow> dless ?s ?l"
    using g dless_asym [of ?s ?l] by (auto simp add: detectTrend_def Let_def)
  show "detectTrend a shortPeriod longPeriod = ''Sideways'' \<longleftrightarrow> deq ?s ?l"
    using g dless_deq [OF nn] by (auto simp add: detectTrend_def Let_def)
  show "detectTrend a shortPeriod longPeriod \<noteq> ''Insufficient data''"
    using g by (simp add: detectTrend_def Let_def)
qed

text \<open>The theorem at four equal prices, with the periods 2 and 4, and 10 and 30.\<close>

theorem trend_classification_witness:
  "list_all is_finite (prices flat_prices) \<and>
   0 < sint (2 :: int32) \<and> 0 < sint (4 :: int32) \<and>
   0 < sint (10 :: int32) \<and> 0 < sint (30 :: int32) \<and>
   int (length (prices flat_prices)) < sint (30 :: int32) \<and>
   sint (4 :: int32) \<le> int (length (prices flat_prices)) \<and>
   detectTrend flat_prices 10 30 = ''Insufficient data'' \<and>
   (detectTrend flat_prices 2 4 = ''Sideways'' \<longleftrightarrow>
      deq (calculateSMA flat_prices 2) (calculateSMA flat_prices 4)) \<and>
   detectTrend flat_prices 2 4 \<noteq> ''Insufficient data''"
proof -
  have fin: "list_all is_finite (prices flat_prices)"
    by (simp add: flat_prices_def)
  show ?thesis
    using fin trend_classification [OF fin, of 2 4] trend_classification [OF fin, of 10 30]
    by (simp add: flat_prices_def)
qed

section \<open>The exponential moving average\<close>

lemma ema_loop_rec:
  "1 \<le> i \<Longrightarrow> i \<le> period \<Longrightarrow> nat period \<le> length ps \<Longrightarrow>
   ema = ema_rec alpha ps (nat i - 1) \<Longrightarrow>
   ema_loop ps alpha period i ema = Inr (ema_rec alpha ps (nat period - 1))"
proof (induction ps alpha period i ema rule: ema_loop.induct)
  case (1 ps alpha period i ema)
  show ?case
  proof (cases "i < period")
    case True
    then have rd: "subscript ps i = Inr (ps ! nat i)"
      using "1.prems" by (simp add: subscript_def)
    obtain k where k: "nat i = Suc k"
      using "1.prems" by (cases "nat i") simp_all
    have suc: "nat (i + 1) - 1 = Suc k" "nat i - 1 = k"
      using "1.prems" k by simp_all
    have "ema_loop ps alpha period (i + 1)
            (dadd (dmul alpha (ps ! nat i)) (dmul (dsub (Fin 1) alpha) ema))
          = Inr (ema_rec alpha ps (nat period - 1))"
      using True "1.prems" suc k
      by (intro "1.IH" [OF True rd]) simp_all
    then show ?thesis using True rd by (subst ema_loop.simps) simp
  next
    case False
    then have "i = period" using "1.prems" by simp
    then show ?thesis using "1.prems" by (subst ema_loop.simps) simp
  qed
qed

lemma ema_rec_window:
  "\<forall>j \<le> i. ps ! j = qs ! j \<Longrightarrow> ema_rec alpha ps i = ema_rec alpha qs i"
  by (induction i) simp_all

lemma calculateEMA_spec:
  assumes "0 < sint period" "sint period < 2147483647" "sint period \<le> int (length (prices a))"
  shows "calculateEMA a period = Inr (ema_spec (prices a) (sint period))"
proof -
  have g: "\<not> length (prices a) < size_t_of period"
    using assms by (simp add: size_t_of_nonneg)
  have rd: "subscript (prices a) 0 = Inr (prices a ! 0)"
    using assms by (cases "prices a") (simp_all add: subscript_def)
  have "ema_loop (prices a) (ddiv (Fin 2) (double_of_int (sint period + 1))) (sint period) 1
          (prices a ! 0)
        = Inr (ema_rec (ddiv (Fin 2) (double_of_int (sint period + 1))) (prices a)
                 (nat (sint period) - 1))"
    using assms by (intro ema_loop_rec) simp_all
  then show ?thesis
    using g rd assms by (simp add: calculateEMA_def ema_spec_def sint_succ)
qed

text \<open>
  C4. On a series of at least \<open>period\<close> prices, \<^verbatim>\<open>calculateEMA\<close> is the recurrence seeded
  with \<open>price\<^sub>0\<close> and folded through the indices \<open>1..period - 1\<close> with
  \<open>\<alpha> = 2 / (period + 1)\<close>; so a second series that agrees with the first on the indices
  \<open>0..period - 1\<close> has the same average, whatever follows. (The period is positive and
  \<^verbatim>\<open>period + 1\<close> does not overflow.)
\<close>

theorem ema_bounded_window:
  assumes "0 < sint period" "sint period < 2147483647"
    and "sint period \<le> int (length (prices a))"
    and "sint period \<le> int (length (prices b))"
    and "take (nat (sint period)) (prices b) = take (nat (sint period)) (prices a)"
  shows "calculateEMA a period = Inr (ema_spec (prices a) (sint period)) \<and>
         calculateEMA b period = calculateEMA a period"
proof
  show a: "calculateEMA a period = Inr (ema_spec (prices a) (sint period))"
    using assms(1-3) by (rule calculateEMA_spec)
  have "\<forall>j \<le> nat (sint period) - 1. prices b ! j = prices a ! j"
  proof (intro allI impI)
    fix j assume "j \<le> nat (sint period) - 1"
    then have j: "j < nat (sint period)" using assms(1) by simp
    have "prices b ! j = take (nat (sint period)) (prices b) ! j" using j by simp
    also have "\<dots> = take (nat (sint period)) (prices a) ! j" using assms(5) by simp
    also have "\<dots> = prices a ! j" using j by simp
    finally show "prices b ! j = prices a ! j" .
  qed
  then have "ema_spec (prices b) (sint period) = ema_spec (prices a) (sint period)"
    unfolding ema_spec_def by (rule ema_rec_window)
  moreover have "calculateEMA b period = Inr (ema_spec (prices b) (sint period))"
    using assms(1,2,4) by (rule calculateEMA_spec)
  ultimately show "calculateEMA b period = calculateEMA a period"
    using a by simp
qed

text \<open>The theorem at period 2, on two prices and on the same two followed by a third.\<close>

theorem ema_bounded_window_witness:
  "0 < sint (2 :: int32) \<and> sint (2 :: int32) < 2147483647 \<and>
   sint (2 :: int32) \<le> int (length (prices two_prices)) \<and>
   sint (2 :: int32) \<le> int (length (prices three_prices)) \<and>
   take (nat (sint (2 :: int32))) (prices three_prices)
     = take (nat (sint (2 :: int32))) (prices two_prices) \<and>
   calculateEMA two_prices 2 = Inr (ema_spec (prices two_prices) (sint (2 :: int32))) \<and>
   calculateEMA three_prices 2 = calculateEMA two_prices 2"
  using ema_bounded_window [of 2 two_prices three_prices]
  by (simp add: two_prices_def three_prices_def)

section \<open>The frame of the indicators\<close>

lemma calculateSMA_member_eq: "calculateSMA_member period this = (calculateSMA this period, this)"
  by (simp add: calculateSMA_member_def calculateSMA_def)

lemma ema_loop_member_eq:
  "ema_loop_member alpha period i ema this = (ema_loop (prices this) alpha period i ema, this)"
proof (induction alpha period i ema this rule: ema_loop_member.induct)
  case (1 alpha period i ema this)
  show ?case
    by (subst ema_loop_member.simps, subst ema_loop.simps) (simp add: 1 split: sum.splits)
qed

lemma calculateEMA_member_eq: "calculateEMA_member period this = (calculateEMA this period, this)"
  by (simp add: calculateEMA_member_def calculateEMA_def ema_loop_member_eq Let_def
      split: sum.splits)

lemma wma_loop_member_eq:
  "wma_loop_member period i sumv weightSum this
   = (wma_loop (prices this) period i sumv weightSum, this)"
proof (induction period i sumv weightSum this rule: wma_loop_member.induct)
  case (1 period i sumv weightSum this)
  show ?case
    by (subst wma_loop_member.simps, subst wma_loop.simps)
      (simp add: 1 Let_def split: sum.splits)
qed

lemma calculateWMA_member_eq: "calculateWMA_member period this = (calculateWMA this period, this)"
  by (simp add: calculateWMA_member_def calculateWMA_def wma_loop_member_eq
      split: sum.splits prod.splits)

lemma sd_loop_member_eq:
  "sd_loop_member pow mean period i sum_sq_diff this
   = (sd_loop pow (prices this) mean period i sum_sq_diff, this)"
proof (induction pow mean period i sum_sq_diff this rule: sd_loop_member.induct)
  case (1 pow mean period i sum_sq_diff this)
  show ?case
    by (subst sd_loop_member.simps, subst sd_loop.simps) (simp add: 1 split: sum.splits)
qed

lemma calculateStandardDeviation_member_eq:
  "calculateStandardDeviation_member pow period this
   = (calculateStandardDeviation pow this period, this)"
  by (simp add: calculateStandardDeviation_member_def calculateStandardDeviation_def
      calculateSMA_member_eq sd_loop_member_eq Let_def split: sum.splits)

lemma calculateBollingerBands_member_eq:
  "calculateBollingerBands_member pow period multiplier upper this
   = (calculateBollingerBands pow this period multiplier upper, this)"
  by (simp add: calculateBollingerBands_member_def calculateBollingerBands_def
      calculateSMA_member_eq calculateStandardDeviation_member_eq Let_def split: sum.splits)

lemma detectTrend_member_eq:
  "detectTrend_member shortPeriod longPeriod this
   = (detectTrend this shortPeriod longPeriod, this)"
  by (simp add: detectTrend_member_def detectTrend_def calculateSMA_member_eq Let_def)

lemma rsi_loop_member_eq:
  "rsi_loop_member period i avg_gain avg_loss this
   = (rsi_loop (prices this) period i avg_gain avg_loss, this)"
proof (induction period i avg_gain avg_loss this rule: rsi_loop_member.induct)
  case (1 period i avg_gain avg_loss this)
  show ?case
    by (subst rsi_loop_member.simps, subst rsi_loop.simps)
      (simp add: 1 Let_def split: sum.splits)
qed

lemma calculateRSI_member_eq: "calculateRSI_member period this = (calculateRSI this period, this)"
  by (simp add: calculateRSI_member_def calculateRSI_def rsi_loop_member_eq Let_def
      split: sum.splits prod.splits)

lemma exec_returned: "exec pow c a = (returned pow c a, a)"
  by (cases c)
    (simp_all add: calculateSMA_member_eq calculateEMA_member_eq calculateWMA_member_eq
      calculateStandardDeviation_member_eq calculateBollingerBands_member_eq
      detectTrend_member_eq calculateRSI_member_eq)

lemma exec_all_frame: "snd (exec_all pow cs a) = a"
proof (induction cs)
  case Nil
  show ?case by simp
next
  case (Cons c cs)
  then show ?case by (simp add: exec_returned split_beta)
qed

lemma exec_all_results: "fst (exec_all pow cs a) = map (\<lambda>c. fst (exec pow c a)) cs"
proof (induction cs)
  case Nil
  show ?case by simp
next
  case (Cons c cs)
  then show ?case by (simp add: exec_returned split_beta)
qed

text \<open>
  C10. A call of an indicator, run as a function on the object, leaves the object, and
  so the prices and the timestamps, as they were, and returns what the function of the
  same name above gives on that object; after any sequence of calls the series is
  unchanged, and each call of the sequence returns what it returns on the first
  object, whatever the order and the number of the calls.
\<close>

theorem indicators_leave_series_unchanged:
  "snd (exec pow c a) = a \<and>
   fst (exec pow c a) = returned pow c a \<and>
   prices (snd (exec_all pow cs a)) = prices a \<and>
   timestamps (snd (exec_all pow cs a)) = timestamps a \<and>
   fst (exec_all pow cs a) = map (\<lambda>c. fst (exec pow c a)) cs"
  by (simp add: exec_returned exec_all_frame exec_all_results)

text \<open>The theorem at the calls of one report, the RSI asked for twice.\<close>

theorem indicators_leave_series_unchanged_witness:
  "snd (exec pow_square (RSI 14) flat_prices) = flat_prices \<and>
   prices (snd (exec_all pow_square [SMA 5, EMA 10, WMA 20, StandardDeviation 20,
      BollingerBands 20 (Fin 2) True, BollingerBands 20 (Fin 2) False, Trend 10 30,
      RSI 14, RSI 14] flat_prices)) = prices flat_prices \<and>
   fst (exec_all pow_square [RSI 14, SMA 5, RSI 14] flat_prices)
     = [fst (exec pow_square (RSI 14) flat_prices), fst (exec pow_square (SMA 5) flat_prices),
        fst (exec pow_square (RSI 14) flat_prices)]"
  using indicators_leave_series_unchanged [of pow_square "RSI 14" flat_prices
      "[SMA 5, EMA 10, WMA 20, StandardDeviation 20,
        BollingerBands 20 (Fin 2) True, BollingerBands 20 (Fin 2) False, Trend 10 30,
        RSI 14, RSI 14]"]
    indicators_leave_series_unchanged [of pow_square "RSI 14" flat_prices "[RSI 14, SMA 5, RSI 14]"]
  by simp

section \<open>Rounding\<close>

lemma ilog2_bounds:
  assumes "0 < a"
  shows "2 powi (ilog2 a) \<le> a \<and> a < 2 powi (ilog2 a + 1)"
proof (cases "1 \<le> a")
  case True
  define f where "f = \<lfloor>a\<rfloor>"
  have f1: "1 \<le> f" unfolding f_def using True by simp
  then have f0: "0 < f" by simp
  have bl: "1 \<le> bitlen f" using f0 by (simp add: bitlen_def floorlog_def)
  from bitlen_bounds [OF f0]
  have lo: "2 ^ nat (bitlen f - 1) \<le> f" and hi: "f < 2 ^ nat (bitlen f)" by simp_all
  have "(2::rat) powi (bitlen f - 1) = 2 ^ nat (bitlen f - 1)"
    using bl by (simp add: power_int_def)
  also have "\<dots> = of_int (2 ^ nat (bitlen f - 1))" by simp
  also have "\<dots> \<le> of_int f" using lo by (simp only: of_int_le_iff)
  also have "\<dots> \<le> a" unfolding f_def by simp
  finally have 1: "2 powi (bitlen f - 1) \<le> a" .
  have "f + 1 \<le> 2 ^ nat (bitlen f)" using hi by simp
  then have "(of_int (f + 1) :: rat) \<le> of_int (2 ^ nat (bitlen f))" by (simp only: of_int_le_iff)
  moreover have "a < of_int (f + 1)" unfolding f_def by linarith
  ultimately have "a < of_int (2 ^ nat (bitlen f))" by linarith
  also have "\<dots> = 2 powi (bitlen f)" using bl by (simp add: power_int_def)
  finally have 2: "a < 2 powi (bitlen f)" .
  show ?thesis using True 1 2 by (simp add: ilog2_def f_def)
next
  case False
  define c where "c = \<lceil>1 / a\<rceil>"
  have b1: "1 < 1 / a" using False assms by simp
  then have c2: "2 \<le> c" unfolding c_def by linarith
  then have c0: "0 < c - 1" by simp
  define k where "k = bitlen (c - 1)"
  have k1: "1 \<le> k" using c0 by (simp add: k_def bitlen_def floorlog_def)
  from bitlen_bounds [OF c0]
  have lo: "2 ^ nat (k - 1) \<le> c - 1" and hi: "c - 1 < 2 ^ nat k" by (simp_all add: k_def)
  have "of_int (c - 1) < 1 / a" unfolding c_def by linarith
  moreover have "(of_int (2 ^ nat (k - 1)) :: rat) \<le> of_int (c - 1)"
    using lo by (simp only: of_int_le_iff)
  ultimately have "(2::rat) ^ nat (k - 1) < 1 / a" by simp
  then have "a * 2 ^ nat (k - 1) < 1" using assms by (simp add: field_simps)
  then have "a < 1 / 2 ^ nat (k - 1)" by (simp add: field_simps)
  also have "\<dots> = 2 powi (- k + 1)" using k1 
    by (simp add: power_int_def field_simps) 
  finally have 2: "a < 2 powi (- k + 1)" .
  have "c \<le> 2 ^ nat k" using hi by simp
  then have "(of_int c :: rat) \<le> of_int (2 ^ nat k)" by (simp only: of_int_le_iff)
  moreover have "1 / a \<le> of_int c" unfolding c_def by linarith
  ultimately have "1 / a \<le> of_int (2 ^ nat k)" by (rule order_trans [rotated])
  then have "1 / a \<le> 2 ^ nat k" by simp
  then have "1 \<le> a * 2 ^ nat k" using assms by (simp add: field_simps)
  then have "1 / 2 ^ nat k \<le> a" by (simp add: field_simps)
  moreover have "(2::rat) powi (- k) = 1 / 2 ^ nat k" using k1 by (simp add: power_int_def field_simps)
  ultimately have 1: "2 powi (- k) \<le> a" by simp
  show ?thesis using False 1 2 by (simp add: ilog2_def c_def k_def)
qed

lemma ilog2_eqI:
  assumes "0 < a" "2 powi e \<le> a" "a < 2 powi (e + 1)"
  shows "ilog2 a = e"
proof (rule ccontr)
  assume ne: "ilog2 a \<noteq> e"
  from ilog2_bounds [OF assms(1)]
  have lo: "2 powi (ilog2 a) \<le> a" and hi: "a < 2 powi (ilog2 a + 1)" by simp_all
  show False
  proof (cases "ilog2 a < e")
    case True
    then have "(2::rat) powi (ilog2 a + 1) \<le> 2 powi e"
      by (intro power_int_increasing) simp_all
    then show False using hi assms(2) by linarith
  next
    case False
    then have "e + 1 \<le> ilog2 a" using ne by simp
    then have "(2::rat) powi (e + 1) \<le> 2 powi (ilog2 a)"
      by (intro power_int_increasing) simp_all
    then show False using lo assms(3) by linarith
  qed
qed

lemma round_even_of_int: "round_even (of_int n) = n"
  by (simp add: round_even_def)

lemma round_even_ge: "of_int k \<le> x \<Longrightarrow> k \<le> round_even x"
proof -
  assume "of_int k \<le> x"
  then have "k \<le> \<lfloor>x\<rfloor>" by (simp add: le_floor_iff)
  then show ?thesis by (simp add: round_even_def Let_def)
qed

lemma round_even_near:
  assumes "\<bar>x - of_int n\<bar> < 1 / 2"
  shows "round_even x = n"
proof (cases "of_int n \<le> x")
  case True
  then have "\<lfloor>x\<rfloor> = n" using assms by (intro floor_unique) linarith+
  then show ?thesis using assms True by (simp add: round_even_def Let_def)
next
  case False
  then have f: "\<lfloor>x\<rfloor> = n - 1" using assms by (intro floor_unique) simp_all
  have "1 / 2 < x - of_int (n - 1)" using assms False by simp
  then show ?thesis using f by (simp add: round_even_def Let_def)
qed

lemma ulp_pos: "0 < ulp a"
  by (simp add: ulp_def zero_less_power_int)

lemma ulp_ge: "2 powi (- 1074) \<le> ulp a"
  unfolding ulp_def by (intro power_int_increasing) simp_all

lemma round_even_nonneg: "0 \<le> x \<Longrightarrow> 0 \<le> round_even x"
  using round_even_ge [of 0 x] by simp

lemma rnd_pos_cases:
  assumes "0 < x"
  shows "rnd x = PlusInf \<or> rnd x = Fin (of_int (round_even (x / ulp x)) * ulp x)"
  using assms by (simp add: rnd_def Let_def)

lemma rnd_pos_eq:
  assumes "0 < a" "2 powi e \<le> a" "a < 2 powi (e + 1)"
    and "u = 2 powi (max e (- 1022) - 52)"
    and "\<bar>a / u - of_int n\<bar> < 1 / 2"
    and "of_int n * u < 2 powi 1024"
  shows "rnd a = Fin (of_int n * u)"
proof -
  have "ilog2 a = e" using assms(1-3) by (rule ilog2_eqI)
  then have u: "ulp a = u" by (simp add: ulp_def assms(4))
  have n: "round_even (a / u) = n" using assms(5) by (rule round_even_near)
  show ?thesis using assms(1,6) by (simp add: rnd_def Let_def u n)
qed

lemma rnd_minus: "q \<noteq> 0 \<Longrightarrow> rnd (- q) = dneg (rnd q)"
proof -
  assume q: "q \<noteq> 0"
  define a where "a = \<bar>q\<bar>"
  define n where "n = round_even (a / ulp a)"
  define r where "r = of_int n * ulp a"
  have r0: "r = 0 \<longleftrightarrow> n = 0" using ulp_pos [of a] by (simp add: r_def)
  have 1: "rnd q = (if 2 powi 1024 \<le> r then (if 0 < q then PlusInf else MinusInf)
           else if n = 0 then (if 0 < q then Fin 0 else MinusZero)
           else Fin (if 0 < q then r else - r))"
    using q by (simp add: rnd_def Let_def a_def r_def n_def)
  have "\<bar>- q\<bar> = a" by (simp add: a_def)
  then have 2: "rnd (- q) = (if 2 powi 1024 \<le> r then (if 0 < - q then PlusInf else MinusInf)
           else if n = 0 then (if 0 < - q then Fin 0 else MinusZero)
           else Fin (if 0 < - q then r else - r))"
    using q unfolding rnd_def Let_def by (simp only: r_def n_def) simp
  show ?thesis
  proof (cases "0 < q")
    case True
    then show ?thesis using r0 by (simp add: 1 2)
  next
    case False
    then have "q < 0" using q by simp
    then show ?thesis using r0 by (simp add: 1 2)
  qed
qed

lemma rnd_pos_unfold:
  "0 < a \<Longrightarrow> n = round_even (a / ulp a) \<Longrightarrow> r = of_int n * ulp a \<Longrightarrow>
   rnd a = (if 2 powi 1024 \<le> r then PlusInf else if n = 0 then Fin 0 else Fin r)"
  by (simp add: rnd_def Let_def)

lemma rnd_exact:
  assumes "0 < m" "m < 2 ^ 53" "- 1074 \<le> s" "of_int m * 2 powi s < (2::rat) powi 1024"
  shows "rnd (of_int m * 2 powi s) = Fin (of_int m * 2 powi s)"
proof -
  define a :: rat where "a = of_int m * 2 powi s"
  have a0: "0 < a" using assms(1) by (simp add: a_def zero_less_power_int)
  define e where "e = ilog2 a"
  from ilog2_bounds [OF a0]
  have lo: "2 powi e \<le> a" and hi: "a < 2 powi (e + 1)" by (simp_all add: e_def)
  have "(of_int m :: rat) < 2 ^ 53" using assms(2) by (metis of_int_less_iff of_int_numeral of_int_power)
  then have "a < 2 ^ 53 * 2 powi s" by (simp add: a_def zero_less_power_int)
  also have "\<dots> = 2 powi (s + 53)" by (simp add: power_int_add)
  finally have "a < 2 powi (s + 53)" .
  have e_lt: "e < s + 53"
  proof (rule ccontr)
    assume "\<not> e < s + 53"
    then have "(2::rat) powi (s + 53) \<le> 2 powi e" by (intro power_int_increasing) simp_all
    then show False using lo \<open>a < 2 powi (s + 53)\<close> by linarith
  qed
  define t where "t = max e (- 1022) - 52"
  have t_le: "t \<le> s" using e_lt assms(3) by (simp add: t_def)
  have u: "ulp a = 2 powi t" by (simp add: ulp_def t_def e_def)
  have "a / 2 powi t = of_int m * 2 powi (s - t)" by (simp add: a_def power_int_diff)
  also have "\<dots> = of_int (m * 2 ^ nat (s - t))" using t_le by (simp add: power_int_def)
  finally have q: "a / 2 powi t = of_int (m * 2 ^ nat (s - t))" .
  have n: "m * 2 ^ nat (s - t) = round_even (a / ulp a)"
    by (simp only: u q round_even_of_int)
  have "(2::rat) powi t \<noteq> 0" by simp
  then have ak: "a = of_int (m * 2 ^ nat (s - t)) * 2 powi t"
    using q by (metis nonzero_divide_eq_eq)
  have r: "a = of_int (m * 2 ^ nat (s - t)) * ulp a" unfolding u by (fact ak)
  have n0: "m * 2 ^ nat (s - t) \<noteq> 0" using assms(1) by simp
  have "\<not> 2 powi 1024 \<le> a" using assms(4) by (simp add: a_def)
  then have "rnd a = Fin a"
    using rnd_pos_unfold [OF a0 n r] n0 by simp
  then show ?thesis by (simp add: a_def)
qed

lemma rnd_int:
  assumes "\<bar>n\<bar> \<le> 2 ^ 53"
  shows "rnd (of_int n) = Fin (of_int n)"
proof -
  have pos: "rnd (of_int k) = Fin (of_int k)" if "0 < k" "k \<le> 2 ^ 53" for k :: int
  proof (cases "k < 2 ^ 53")
    case True
    have "(of_int k :: rat) < 2 ^ 53" using True by (metis of_int_less_iff of_int_numeral of_int_power)
    also have "(2::rat) ^ 53 < 2 powi 1024" by (simp add: power_int_def)
    finally have "(of_int k :: rat) * 2 powi 0 < 2 powi 1024" by simp
    from rnd_exact [OF that(1) True _ this] show ?thesis by simp
  next
    case False
    then have k: "k = 2 ^ 53" using that by simp
    have "of_int 1 * (2::rat) powi 53 < 2 powi 1024" by (simp add: power_int_def)
    from rnd_exact [of 1 53, OF _ _ _ this] show ?thesis by (simp add: k)
  qed
  show ?thesis
  proof (cases "n = 0")
    case True
    then show ?thesis by (simp add: rnd_def)
  next
    case False
    show ?thesis
    proof (cases "0 < n")
      case True
      then show ?thesis using assms pos by simp
    next
      case neg: False
      then have "0 < - n" "- n \<le> 2 ^ 53" using False assms by simp_all
      then have "rnd (of_int (- n)) = Fin (of_int (- n))" by (rule pos)
      moreover have "rnd (- of_int (- n)) = dneg (rnd (of_int (- n)))"
        using False by (intro rnd_minus) simp
      ultimately show ?thesis using False by simp
    qed
  qed
qed

lemma rnd_lower:
  assumes "1 \<le> m" "m \<le> 2 ^ 53" "of_int m * 2 powi (- 1074) \<le> x"
  shows "at_least (of_int m * 2 powi (- 1074)) (rnd x)"
proof -
  have m0: "(0::rat) < of_int m" using assms(1) by simp
  then have x0: "0 < x"
    using assms(3) by (meson less_le_trans mult_pos_pos zero_less_numeral zero_less_power_int)
  define n where "n = round_even (x / ulp x)"
  define r where "r = of_int n * ulp x"
  have rn: "rnd x = (if 2 powi 1024 \<le> r then PlusInf else if n = 0 then Fin 0 else Fin r)"
    using x0 n_def r_def by (rule rnd_pos_unfold)
  have "1 \<le> n \<and> of_int m * 2 powi (- 1074) \<le> r"
  proof (cases "ilog2 x \<le> - 1022")
    case True
    then have u: "ulp x = 2 powi (- 1074)" by (simp add: ulp_def max_def)
    have "of_int m \<le> x / ulp x"
      using assms(3) by (simp add: u pos_le_divide_eq zero_less_power_int)
    then have "m \<le> n" unfolding n_def by (rule round_even_ge)
    then have "(of_int m :: rat) \<le> of_int n" by simp
    then have "of_int m * 2 powi (- 1074) \<le> r"
      unfolding r_def u by (intro mult_right_mono) simp_all
    then show ?thesis using \<open>m \<le> n\<close> assms(1) by simp
  next
    case False
    define e where "e = ilog2 x"
    have e: "- 1022 < e" using False by (simp add: e_def)
    then have u: "ulp x = 2 powi (e - 52)" by (simp add: ulp_def e_def max_def)
    have lo: "2 powi e \<le> x" using ilog2_bounds [OF x0] by (simp add: e_def)
    have "(2::rat) powi e = 2 ^ 52 * 2 powi (e - 52)"
      using power_int_add [of "2::rat" 52 "e - 52"] by simp
    then have "2 ^ 52 * ulp x \<le> x" using lo by (simp add: u)
    then have "of_int (2 ^ 52) \<le> x / ulp x"
      using ulp_pos [of x] by (simp add: pos_le_divide_eq)
    then have n52: "2 ^ 52 \<le> n" unfolding n_def by (rule round_even_ge)
    then have "(of_int (2 ^ 52) :: rat) \<le> of_int n" by (simp only: of_int_le_iff)
    then have "of_int (2 ^ 52) * ulp x \<le> r"
      unfolding r_def using ulp_pos [of x] by (intro mult_right_mono) simp_all
    then have "2 powi e \<le> r"
      using \<open>(2::rat) powi e = 2 ^ 52 * 2 powi (e - 52)\<close> by (simp add: u)
    moreover have "(2::rat) powi (- 1021) \<le> 2 powi e"
      using e by (intro power_int_increasing) simp_all
    moreover have "of_int m * (2::rat) powi (- 1074) \<le> 2 ^ 53 * 2 powi (- 1074)"
    proof (intro mult_right_mono)
      show "(of_int m :: rat) \<le> 2 ^ 53"
        using assms(2) by (metis of_int_le_iff of_int_numeral of_int_power)
    qed simp
    moreover have "(2::rat) ^ 53 * 2 powi (- 1074) = 2 powi (- 1021)"
      using power_int_add [of "2::rat" 53 "- 1074"] by simp
    ultimately have "of_int m * 2 powi (- 1074) \<le> r" by linarith
    moreover have "1 \<le> n" using n52 by simp
    ultimately show ?thesis by simp
  qed
  then show ?thesis by (simp add: rn)
qed

lemma rnd_unfold:
  "q \<noteq> 0 \<Longrightarrow> a = \<bar>q\<bar> \<Longrightarrow> n = round_even (a / ulp a) \<Longrightarrow> r = of_int n * ulp a \<Longrightarrow>
   rnd q = (if 2 powi 1024 \<le> r then (if 0 < q then PlusInf else MinusInf)
            else if n = 0 then (if 0 < q then Fin 0 else MinusZero)
            else Fin (if 0 < q then r else - r))"
  by (simp add: rnd_def Let_def)

lemma double_pos_lower:
  assumes "rnd x = Fin r" "0 < r"
  shows "2 powi (- 1074) \<le> r"
proof -
  have x0: "x \<noteq> 0" using assms by (auto simp add: rnd_def)
  define a where "a = \<bar>x\<bar>"
  define n where "n = round_even (a / ulp a)"
  define r' where "r' = of_int n * ulp a"
  note rn = rnd_unfold [OF x0 a_def n_def r'_def]
  have "0 \<le> a / ulp a" using ulp_pos [of a] by (simp add: a_def)
  then have nn: "0 \<le> n" unfolding n_def by (rule round_even_nonneg)
  then have rr: "0 \<le> r'" using ulp_pos [of a] by (simp add: r'_def)
  have "r = r' \<and> n \<noteq> 0"
    using assms rr unfolding rn by (auto split: if_splits)
  then have r: "r = r'" and "1 \<le> n" using nn by simp_all
  then have "(1::rat) \<le> of_int n" by simp
  then have "1 * ulp a \<le> of_int n * ulp a"
    using ulp_pos [of a] by (intro mult_right_mono) simp_all
  then have "ulp a \<le> r" by (simp only: mult_1 r r'_def)
  with ulp_ge [of a] show ?thesis by (rule order_trans)
qed

section \<open>Positive sums\<close>

lemma least_double_pos: "0 < least_double"
  by (simp add: least_double_def zero_less_power_int)

lemma rnd_at_least:
  "1 \<le> m \<Longrightarrow> m \<le> 2 ^ 53 \<Longrightarrow> of_int m * least_double \<le> x \<Longrightarrow>
   at_least (of_int m * least_double) (rnd x)"
  unfolding least_double_def by (rule rnd_lower)

lemma positive_double_at_least:
  assumes "is_double p" "dless (Fin 0) p"
  shows "at_least least_double p"
proof (cases p)
  case (Fin q)
  then have "rnd q = Fin q" "0 < q" using assms by simp_all
  then have "2 powi (- 1074) \<le> q" by (rule double_pos_lower)
  then show ?thesis by (simp add: Fin least_double_def)
qed (use assms in simp_all)

lemma at_least_positive: "0 < b \<Longrightarrow> at_least b x \<Longrightarrow> dless (Fin 0) x"
  by (cases x) simp_all

lemma at_least_mono: "b \<le> c \<Longrightarrow> at_least c x \<Longrightarrow> at_least b x"
  by (cases x) simp_all

lemma dadd_at_least:
  assumes "0 \<le> k" "k + 1 \<le> 2 ^ 53"
    and "at_least (of_int k * least_double) acc" "at_least least_double p"
  shows "at_least (of_int (k + 1) * least_double) (dadd acc p)"
proof (cases acc)
  case acc: (Fin a)
  show ?thesis
  proof (cases p)
    case p: (Fin q)
    have a: "of_int k * least_double \<le> a" and q: "least_double \<le> q"
      using assms acc p by simp_all
    have a0: "0 \<le> a"
      using a assms(1) least_double_pos by (meson mult_nonneg_nonneg of_int_0_le_iff order_trans less_imp_le)
    have q0: "0 < q" using q least_double_pos by linarith
    have sum: "of_int (k + 1) * least_double \<le> a + q"
      using a q by (simp add: algebra_simps)
    show ?thesis
    proof (cases "a = 0")
      case True
      then have "of_int k * least_double \<le> 0" using a by simp
      then have "k \<le> 0"
        using least_double_pos by (simp add: mult_le_0_iff)
      then have "k = 0" using assms(1) by simp
      then show ?thesis using True q acc p by simp
    next
      case False
      then have "dadd acc p = rnd (a + q)" using q0 a0 acc p by simp
      moreover have "at_least (of_int (k + 1) * least_double) (rnd (a + q))"
        using assms(1,2) sum by (intro rnd_at_least) simp_all
      ultimately show ?thesis by simp
    qed
  qed (use assms acc in simp_all)
next
  case PlusInf
  then show ?thesis using assms by (cases p) simp_all
qed (use assms in simp_all)

lemma accumulate_at_least:
  "list_all (at_least least_double) xs \<Longrightarrow> 0 \<le> k \<Longrightarrow> k + int (length xs) \<le> 2 ^ 53 \<Longrightarrow>
   at_least (of_int k * least_double) init \<Longrightarrow>
   at_least (of_int (k + int (length xs)) * least_double) (foldl dadd init xs)"
proof (induction xs arbitrary: init k)
  case Nil
  then show ?case by simp
next
  case (Cons x xs)
  have e: "k + 1 + int (length xs) = k + int (length (x # xs))" by simp
  have "at_least (of_int (k + 1) * least_double) (dadd init x)"
    using Cons.prems by (intro dadd_at_least) simp_all
  then have "at_least (of_int (k + 1 + int (length xs)) * least_double)
      (foldl dadd (dadd init x) xs)"
    using Cons.prems by (intro Cons.IH) simp_all
  then show ?case unfolding e by simp
qed

lemma ddiv_at_least:
  assumes "0 < n" "at_least (of_int n * least_double) x"
  shows "at_least least_double (ddiv x (double_of_int n))"
proof (cases x)
  case (Fin a)
  then have a: "of_int n * least_double \<le> a" using assms by simp
  have n0: "(0::rat) < of_int n" using assms(1) by simp
  then have a0: "0 < a" using a least_double_pos
    by (meson less_le_trans mult_pos_pos)
  have "least_double \<le> a / of_int n"
    using a n0 by (simp add: pos_le_divide_eq mult.commute)
  then have "at_least (of_int 1 * least_double) (rnd (a / of_int n))"
    by (intro rnd_at_least) simp_all
  then show ?thesis using a0 assms(1) Fin by (simp add: ddiv_def double_of_int_def)
next
  case PlusInf
  then show ?thesis using assms(1) by (simp add: ddiv_def double_of_int_def signed_inf_def)
qed (use assms in simp_all)

lemma calculateSMA_positive:
  assumes "list_all (\<lambda>p. is_double p \<and> dless (Fin 0) p) (prices a)"
    and "0 < sint period" "sint period \<le> int (length (prices a))"
  shows "dless (Fin 0) (calculateSMA a period)"
proof -
  define n where "n = nat (sint period)"
  have n: "int n = sint period" "length (take n (prices a)) = n"
    using assms(2,3) by (simp_all add: n_def)
  have g: "\<not> length (prices a) < size_t_of period"
    using assms(2,3) by (simp add: size_t_of_nonneg)
  have "list_all (at_least least_double) (prices a)"
    using assms(1) by (simp add: list_all_iff positive_double_at_least)
  then have "list_all (at_least least_double) (take n (prices a))"
    by (simp add: list_all_iff) (meson in_set_takeD)
  moreover have "0 + int (length (take n (prices a))) \<le> 2 ^ 53"
    using n sint32_bounds [of period] by simp
  ultimately have "at_least (of_int (0 + int (length (take n (prices a)))) * least_double)
      (foldl dadd (Fin 0) (take n (prices a)))"
    by (intro accumulate_at_least) simp_all
  then have "at_least (of_int (int n) * least_double)
      (accumulate (take n (prices a)) (Fin 0))"
    by (simp only: n(2) accumulate_def add_0)
  then have "at_least (of_int (sint period) * least_double)
      (accumulate (take n (prices a)) (Fin 0))"
    by (simp only: n(1))
  then have "at_least least_double (calculateSMA a period)"
    using g assms(2) by (simp add: calculateSMA_def n_def [symmetric] ddiv_at_least)
  then show ?thesis using least_double_pos by (rule at_least_positive [rotated])
qed

lemma is_double_int: "\<bar>n\<bar> \<le> 2 ^ 53 \<Longrightarrow> is_double (Fin (of_int n))"
  by (simp add: rnd_int)

section \<open>The trend on a series shorter than the short period\<close>

text \<open>
  C9. \<^verbatim>\<open>detectTrend\<close> guards on \<open>longPeriod\<close> only. On a series of positive prices with
  \<open>longPeriod \<le> length < shortPeriod\<close> (and a positive \<open>longPeriod\<close>) the result is not
  \<^verbatim>\<open>Insufficient data\<close>: \<open>SMA(shortPeriod)\<close> is the sentinel zero, \<open>SMA(longPeriod)\<close> is
  positive, and the result is \<^verbatim>\<open>Downtrend\<close>.
\<close>

theorem trend_guards_only_long_period:
  assumes "list_all (\<lambda>p. is_double p \<and> dless (Fin 0) p) (prices a)"
    and "0 < sint longPeriod" "sint longPeriod \<le> int (length (prices a))"
    and "int (length (prices a)) < sint shortPeriod"
  shows "calculateSMA a shortPeriod = Fin 0 \<and>
         dless (Fin 0) (calculateSMA a longPeriod) \<and>
         detectTrend a shortPeriod longPeriod = ''Downtrend''"
proof -
  have s: "calculateSMA a shortPeriod = Fin 0"
    using assms(4) by (simp add: calculateSMA_def guard_short)
  have l: "dless (Fin 0) (calculateSMA a longPeriod)"
    using assms(1-3) by (rule calculateSMA_positive)
  have g: "\<not> length (prices a) < size_t_of longPeriod"
    using assms(2,3) by (simp add: size_t_of_nonneg)
  show ?thesis using s l g dless_asym [OF l] by (simp add: detectTrend_def)
qed

text \<open>The theorem at two prices, with the long period 2 and the short period 5.\<close>

theorem trend_guards_only_long_period_witness:
  "list_all (\<lambda>p. is_double p \<and> dless (Fin 0) p) (prices two_prices) \<and>
   0 < sint (2 :: int32) \<and> sint (2 :: int32) \<le> int (length (prices two_prices)) \<and>
   int (length (prices two_prices)) < sint (5 :: int32) \<and>
   calculateSMA two_prices 5 = Fin 0 \<and>
   dless (Fin 0) (calculateSMA two_prices 2) \<and>
   detectTrend two_prices 5 2 = ''Downtrend''"
proof -
  have d: "list_all (\<lambda>p. is_double p \<and> dless (Fin 0) p) (prices two_prices)"
    using is_double_int [of 10] is_double_int [of 11] by (simp add: two_prices_def)
  show ?thesis
    using d trend_guards_only_long_period [OF d, of 2 5] by (simp add: two_prices_def)
qed

section \<open>The relative strength index\<close>

lemma rnd_pos_nonneg: "0 < x \<Longrightarrow> at_least 0 (rnd x)"
proof -
  assume x: "0 < x"
  have "0 \<le> x / ulp x" using x ulp_pos [of x] by simp
  then have "0 \<le> round_even (x / ulp x)" by (rule round_even_nonneg)
  then have "0 \<le> of_int (round_even (x / ulp x)) * ulp x" using ulp_pos [of x] by simp
  then show ?thesis using rnd_pos_cases [OF x] by auto
qed

lemma loss_step:
  assumes "at_least 0 l" "\<not> is_nan c" "\<not> dless (Fin 0) c"
  shows "dsub l c = (if dless c (Fin 0) then dadd l (dabs c) else l) \<and> at_least 0 (dsub l c)"
proof (cases l)
  case l: (Fin a)
  then have a: "0 \<le> a" using assms(1) by simp
  show ?thesis
  proof (cases c)
    case c: (Fin q)
    then have q: "q \<le> 0" using assms(3) by simp
    show ?thesis
    proof (cases "q = 0")
      case True
      then show ?thesis using l c a by (simp add: dsub_def dabs_def)
    next
      case False
      then have "0 < a - q" using a q by simp
      then have "at_least 0 (rnd (a - q))" by (rule rnd_pos_nonneg)
      then show ?thesis using l c a q False by (simp add: dsub_def dabs_def)
    qed
  qed (use assms l in \<open>simp_all add: dsub_def dabs_def\<close>)
next
  case PlusInf
  then show ?thesis using assms by (cases c) (simp_all add: dsub_def dabs_def)
qed (use assms in simp_all)

lemma rsi_loop_spec:
  "1 \<le> i \<Longrightarrow> i \<le> period + 1 \<Longrightarrow> nat period < length ps \<Longrightarrow>
   list_all (\<lambda>j. \<not> is_nan (price_change ps j)) [nat i..<Suc (nat period)] \<Longrightarrow>
   at_least 0 l \<Longrightarrow>
   rsi_loop ps period i g l =
     Inr (fold (gain_sum ps) [nat i..<Suc (nat period)] g,
          fold (loss_sum ps) [nat i..<Suc (nat period)] l)"
proof (induction ps period i g l rule: rsi_loop.induct)
  case (1 ps period i g l)
  show ?case
  proof (cases "i \<le> period")
    case True
    have r1: "subscript ps (i - 1) = Inr (ps ! (nat i - 1))"
      using True "1.prems" by (simp add: subscript_def nat_diff_distrib)
    have r2: "subscript ps i = Inr (ps ! nat i)"
      using True "1.prems" by (simp add: subscript_def)
    have lt: "nat i < Suc (nat period)" using True "1.prems" by simp
    have sc: "Suc (nat i) = nat (i + 1)" using "1.prems" by simp
    have up: "[nat i..<Suc (nat period)] = nat i # [nat (i + 1)..<Suc (nat period)]"
      by (simp only: upt_conv_Cons [OF lt] sc)
    define c where "c = dsub (ps ! (nat i - 1)) (ps ! nat i)"
    have cc: "price_change ps (nat i) = c" by (simp add: price_change_def c_def)
    have nn: "\<not> is_nan c" using "1.prems"(4) cc unfolding up by simp
    have rest: "list_all (\<lambda>j. \<not> is_nan (price_change ps j)) [nat (i + 1)..<Suc (nat period)]"
      using "1.prems"(4) unfolding up by simp
    have step: "rsi_loop ps period i g l =
        (if dless (Fin 0) c then rsi_loop ps period (i + 1) (dadd g c) l
         else rsi_loop ps period (i + 1) g (dsub l c))"
      using True r1 r2 by (subst rsi_loop.simps) (simp add: Let_def c_def)
    show ?thesis
    proof (cases "dless (Fin 0) c")
      case pos: True
      then have np: "\<not> dless c (Fin 0)" by (rule dless_asym)
      have "rsi_loop ps period (i + 1) (dadd g c) l =
          Inr (fold (gain_sum ps) [nat (i + 1)..<Suc (nat period)] (dadd g c),
               fold (loss_sum ps) [nat (i + 1)..<Suc (nat period)] l)"
        using True "1.prems" rest
        by (intro "1.IH"(1) [OF True r1 r2 c_def pos]) (simp_all del: upt_Suc)
      moreover have "gain_sum ps (nat i) g = dadd g c" "loss_sum ps (nat i) l = l"
        using pos np by (simp_all add: gain_sum_def loss_sum_def cc)
      ultimately show ?thesis
        using pos by (simp add: step up del: upt_Suc)
    next
      case npos: False
      note st = loss_step [OF "1.prems"(5) nn npos]
      have st1: "dsub l c = (if dless c (Fin 0) then dadd l (dabs c) else l)"
        and st2: "at_least 0 (dsub l c)" using st by blast+
      have "rsi_loop ps period (i + 1) g (dsub l c) =
          Inr (fold (gain_sum ps) [nat (i + 1)..<Suc (nat period)] g,
               fold (loss_sum ps) [nat (i + 1)..<Suc (nat period)] (dsub l c))"
        using True "1.prems"(1-3) rest st2
        by (intro "1.IH"(2) [OF True r1 r2 c_def npos]) (simp_all del: upt_Suc)
      moreover have "gain_sum ps (nat i) g = g" "loss_sum ps (nat i) l = dsub l c"
        using npos st1 by (simp_all add: gain_sum_def loss_sum_def cc)
      ultimately show ?thesis
        using npos by (simp add: step up del: upt_Suc)
    qed
  next
    case False
    then have "i = period + 1" using "1.prems" by simp
    then have "[nat i..<Suc (nat period)] = []" using "1.prems" by (simp add: nat_add_distrib)
    then show ?thesis using False by (subst rsi_loop.simps) (simp del: upt_Suc)
  qed
qed

lemma rnd_0: "rnd 0 = Fin 0"
  by (simp add: rnd_def)

lemma dsub_finite_not_nan: "is_finite x \<Longrightarrow> is_finite y \<Longrightarrow> \<not> is_nan (dsub x y)"
  by (cases x; cases y) (simp_all add: dsub_def rnd_is_not_nan)

lemma rsi_guard:
  assumes "0 < sint period" "sint period < 2147483647" "sint period < int (length ps)"
  shows "\<not> length ps < size_t_of (period + 1)"
  using assms by (simp add: size_t_of_nonneg sint_succ)

text \<open>
  C5. On a series of at least \<open>period + 1\<close> finite prices \<^verbatim>\<open>calculateRSI\<close> is the formula
  of the specification: the changes \<open>price\<^sub>i\<^sub>-\<^sub>1 - price\<^sub>i\<close> at the indices \<open>1..period\<close>, the
  positive ones summed into the gain, the magnitudes of the negative ones into the loss,
  each sum divided by the period, and \<open>100 - 100 / (1 + avg_gain / avg_loss)\<close>. (The period
  is positive and \<^verbatim>\<open>period + 1\<close> does not overflow.)
\<close>

theorem rsi_formula:
  assumes "list_all is_finite (prices a)"
    and "0 < sint period" "sint period < 2147483647"
    and "sint period < int (length (prices a))"
  shows "calculateRSI a period = Inr (rsi_spec (prices a) (nat (sint period)))"
proof -
  define n where "n = nat (sint period)"
  have n: "int n = sint period" "n < length (prices a)" using assms(2,4) by (simp_all add: n_def)
  have "\<not> is_nan (price_change (prices a) j)" if "j \<in> set [1..<Suc n]" for j
  proof -
    have "j < Suc n" using that by (simp del: upt_Suc)
    then have "j - 1 < length (prices a)" "j < length (prices a)" using n by simp_all
    then have "is_finite (prices a ! (j - 1))" "is_finite (prices a ! j)"
      using assms(1) by (simp_all add: list_all_length)
    then show ?thesis unfolding price_change_def by (rule dsub_finite_not_nan)
  qed
  then have nn: "list_all (\<lambda>j. \<not> is_nan (price_change (prices a) j)) [nat 1..<Suc (nat (sint period))]"
    by (simp add: list_all_iff n_def del: upt_Suc)
  have "rsi_loop (prices a) (sint period) 1 (Fin 0) (Fin 0) =
      Inr (fold (gain_sum (prices a)) [nat 1..<Suc (nat (sint period))] (Fin 0),
           fold (loss_sum (prices a)) [nat 1..<Suc (nat (sint period))] (Fin 0))"
    using assms(2,4) nn by (intro rsi_loop_spec) simp_all
  then show ?thesis
    using rsi_guard [OF assms(2-4)] assms(2)
    by (simp add: calculateRSI_def rsi_spec_def Let_def del: upt_Suc)
qed

lemma rnd_numeral: "(numeral k :: int) \<le> 2 ^ 53 \<Longrightarrow> rnd (numeral k) = Fin (numeral k)"
  using rnd_int [of "numeral k"] by simp

lemma rnd_1: "rnd 1 = Fin 1"
  using rnd_int [of 1] by simp

lemma gaining_all: "all_gaining (prices gaining_prices) 2"
  by (simp add: all_gaining_def gaining_prices_def price_change_def dsub_def rnd_1 upt_rec)

lemma gaining_loop: "rsi_loop (prices gaining_prices) 2 1 (Fin 0) (Fin 0) = Inr (Fin 2, Fin 0)"
  by (simp add: gaining_prices_def rsi_loop.simps subscript_def dsub_def rnd_1 rnd_numeral)

text \<open>The theorem at the prices 3, 2, 1 and the period 2.\<close>

theorem rsi_formula_witness:
  "list_all is_finite (prices gaining_prices) \<and>
   0 < sint (2 :: int32) \<and> sint (2 :: int32) < 2147483647 \<and>
   sint (2 :: int32) < int (length (prices gaining_prices)) \<and>
   calculateRSI gaining_prices 2 = Inr (rsi_spec (prices gaining_prices) (nat (sint (2 :: int32))))"
proof -
  have fin: "list_all is_finite (prices gaining_prices)" by (simp add: gaining_prices_def)
  show ?thesis using fin rsi_formula [OF fin, of 2] by (simp add: gaining_prices_def)
qed

subsection \<open>A window of gains only\<close>

lemma double_fin_lower: "rnd a = Fin a \<Longrightarrow> 0 < a \<Longrightarrow> least_double \<le> a"
  unfolding least_double_def by (rule double_pos_lower)

lemma dsub_positive_at_least:
  assumes "is_double x" "is_double y" "dless (Fin 0) (dsub x y)"
  shows "at_least least_double (dsub x y)"
proof -
  have neg: "is_double (dneg y)"
  proof (cases y)
    case (Fin b)
    then show ?thesis using assms(2) rnd_minus [of b] by (cases "b = 0") simp_all
  qed (simp_all add: rnd_0)
  have "at_least least_double (dadd x z)" if "is_double z" "dless (Fin 0) (dadd x z)" for z
  proof (cases x)
    case x: (Fin a)
    show ?thesis
    proof (cases z)
      case z: (Fin b)
      show ?thesis
      proof (cases "a = 0 \<or> b = 0 \<or> a + b = 0")
        case True
        then consider "a = 0" | "a \<noteq> 0" "b = 0" | "a \<noteq> 0" "b \<noteq> 0" "a + b = 0" by blast
        then show ?thesis
        proof cases
          case 1
          then have "dadd x z = z" using x z by simp
          then show ?thesis using that by (simp add: positive_double_at_least)
        next
          case 2
          then have "dadd x z = x" using x z by simp
          then show ?thesis using that assms(1) by (simp add: positive_double_at_least)
        next
          case 3
          then have "dadd x z = Fin 0" using x z by simp
          then show ?thesis using that by simp
        qed
      next
        case False
        then have e: "dadd x z = rnd (a + b)" using x z by simp
        show ?thesis
        proof (cases "rnd (a + b)")
          case (Fin r)
          then have "0 < r" using that(2) e by simp
          with Fin have "2 powi (- 1074) \<le> r" by (rule double_pos_lower)
          then show ?thesis using e Fin by (simp add: least_double_def)
        qed (use that(2) e in simp_all)
      qed
    qed (use that assms(1) x in \<open>auto intro: double_fin_lower\<close>)
  next
    case MinusZero
    then show ?thesis using that by (cases z) (auto intro: double_fin_lower)
  qed (use that in \<open>cases z; simp\<close>)+
  then show ?thesis using neg assms(3) by (simp add: dsub_def)
qed

lemma fold_loss_all_gaining:
  "list_all (\<lambda>i. dless (Fin 0) (price_change ps i)) js \<Longrightarrow> fold (loss_sum ps) js l = l"
proof (induction js arbitrary: l)
  case Nil
  show ?case by simp
next
  case (Cons j js)
  then have "\<not> dless (price_change ps j) (Fin 0)" using dless_asym by simp
  then show ?case using Cons by (simp add: loss_sum_def)
qed

lemma fold_gain_at_least:
  "list_all (\<lambda>i. dless (Fin 0) (price_change ps i) \<and> at_least least_double (price_change ps i)) js \<Longrightarrow>
   0 \<le> k \<Longrightarrow> k + int (length js) \<le> 2 ^ 53 \<Longrightarrow>
   at_least (of_int k * least_double) g \<Longrightarrow>
   at_least (of_int (k + int (length js)) * least_double) (fold (gain_sum ps) js g)"
proof (induction js arbitrary: g k)
  case Nil
  then show ?case by simp
next
  case (Cons j js)
  have e: "k + 1 + int (length js) = k + int (length (j # js))" by simp
  have st: "gain_sum ps j g = dadd g (price_change ps j)"
    using Cons.prems(1) by (simp add: gain_sum_def)
  have "at_least (of_int (k + 1) * least_double) (dadd g (price_change ps j))"
    using Cons.prems by (intro dadd_at_least) simp_all
  then have "at_least (of_int (k + 1 + int (length js)) * least_double)
      (fold (gain_sum ps) js (dadd g (price_change ps j)))"
    using Cons.prems by (intro Cons.IH) simp_all
  then show ?case unfolding e by (simp add: st)
qed

lemma dless_not_nan: "dless x y \<Longrightarrow> \<not> is_nan y"
  by (cases x; cases y) simp_all

lemma ddiv_zero_int: "0 < n \<Longrightarrow> ddiv (Fin 0) (double_of_int n) = Fin 0"
  by (simp add: ddiv_def double_of_int_def signed_zero_def)

lemma ddiv_by_zero: "0 < b \<Longrightarrow> at_least b x \<Longrightarrow> ddiv x (Fin 0) = PlusInf"
  by (cases x) (simp_all add: ddiv_def signed_inf_def)

lemma rsi_of_infinite_ratio:
  "dsub (Fin 100) (ddiv (Fin 100) (dadd (Fin 1) PlusInf)) = Fin 100"
  by (simp add: ddiv_def dsub_def signed_zero_def)

text \<open>
  C7. On a window of \<open>period\<close> positive changes \<^verbatim>\<open>calculateRSI\<close> raises no fault and
  returns a defined value, 100. The sum of the losses is zero and so is \<^verbatim>\<open>avg_loss\<close>;
  the sum of the gains is at least the least positive \<^verbatim>\<open>double\<close> times the period, so
  \<^verbatim>\<open>avg_gain\<close> is positive; the division \<^verbatim>\<open>avg_gain / avg_loss\<close>, which the code does not
  guard, gives the positive infinity and no fault, \<open>100 / (1 + \<infinity>)\<close> is zero, and the
  result is 100. No read is out of range.
\<close>

theorem rsi_all_gaining:
  assumes "list_all is_double (prices a)"
    and "0 < sint period" "sint period < 2147483647"
    and "sint period < int (length (prices a))"
    and "all_gaining (prices a) (nat (sint period))"
  shows "\<exists>gain.
           rsi_loop (prices a) (sint period) 1 (Fin 0) (Fin 0) = Inr (gain, Fin 0) \<and>
           ddiv (Fin 0) (double_of_int (sint period)) = Fin 0 \<and>
           ddiv (ddiv gain (double_of_int (sint period))) (Fin 0) = PlusInf \<and>
           calculateRSI a period = Inr (Fin 100)"
proof -
  define n where "n = nat (sint period)"
  define ps where "ps = prices a"
  have n: "int n = sint period" "n < length ps" using assms(2,4) by (simp_all add: n_def ps_def)
  have pos: "list_all (\<lambda>i. dless (Fin 0) (price_change ps i)) [1..<Suc n]"
    using assms(5) by (simp add: all_gaining_def n_def ps_def del: upt_Suc)
  have low: "at_least least_double (price_change ps j)" if "j \<in> set [1..<Suc n]" for j
  proof -
    have "j < Suc n" using that by (simp del: upt_Suc)
    then have "j - 1 < length ps" "j < length ps" using n by simp_all
    then have "is_double (ps ! (j - 1))" "is_double (ps ! j)"
      using assms(1) by (simp_all add: list_all_length ps_def)
    moreover have "dless (Fin 0) (price_change ps j)"
      using pos that by (simp add: list_all_iff del: upt_Suc)
    ultimately show ?thesis unfolding price_change_def by (intro dsub_positive_at_least)
  qed
  have nn: "list_all (\<lambda>j. \<not> is_nan (price_change ps j)) [nat 1..<Suc (nat (sint period))]"
    using pos dless_not_nan by (auto simp add: list_all_iff n_def simp del: upt_Suc)
  have loop: "rsi_loop ps (sint period) 1 (Fin 0) (Fin 0) =
      Inr (fold (gain_sum ps) [nat 1..<Suc (nat (sint period))] (Fin 0),
           fold (loss_sum ps) [nat 1..<Suc (nat (sint period))] (Fin 0))"
    using assms(2,4) nn by (intro rsi_loop_spec) (simp_all add: ps_def)
  define gain where "gain = fold (gain_sum ps) [1..<Suc n] (Fin 0)"
  have loss: "fold (loss_sum ps) [1..<Suc n] (Fin 0) = Fin 0"
    using pos by (rule fold_loss_all_gaining)
  have l1: "rsi_loop ps (sint period) 1 (Fin 0) (Fin 0) = Inr (gain, Fin 0)"
    using loop loss by (simp add: gain_def n_def del: upt_Suc)
  have both: "list_all (\<lambda>i. dless (Fin 0) (price_change ps i) \<and>
      at_least least_double (price_change ps i)) [1..<Suc n]"
    using pos low by (simp add: list_all_iff del: upt_Suc)
  have "0 + int (length [1..<Suc n]) \<le> 2 ^ 53"
    using n(1) sint32_bounds [of period] by (simp del: upt_Suc)
  with both have "at_least (of_int (0 + int (length [1..<Suc n])) * least_double) gain"
    unfolding gain_def by (intro fold_gain_at_least) simp_all
  moreover have "length [1..<Suc n] = n" by (simp del: upt_Suc)
  ultimately have "at_least (of_int (int n) * least_double) gain" by (simp only: add_0)
  then have "at_least (of_int (sint period) * least_double) gain" by (simp only: n(1))
  with assms(2) have avg: "at_least least_double (ddiv gain (double_of_int (sint period)))"
    by (rule ddiv_at_least)
  have l2: "ddiv (Fin 0) (double_of_int (sint period)) = Fin 0"
    using assms(2) by (rule ddiv_zero_int)
  have l3: "ddiv (ddiv gain (double_of_int (sint period))) (Fin 0) = PlusInf"
    using least_double_pos avg by (rule ddiv_by_zero)
  have "calculateRSI a period = Inr (Fin 100)"
    using rsi_guard [OF assms(2-4)] l1 l2 l3 rsi_of_infinite_ratio
    by (simp add: calculateRSI_def ps_def [symmetric] Let_def)
  then show ?thesis using l1 l2 l3 by (auto simp add: ps_def)
qed

text \<open>The theorem at the prices 3, 2, 1 and the period 2.\<close>

theorem rsi_all_gaining_witness:
  "list_all is_double (prices gaining_prices) \<and>
   0 < sint (2 :: int32) \<and> sint (2 :: int32) < 2147483647 \<and>
   sint (2 :: int32) < int (length (prices gaining_prices)) \<and>
   all_gaining (prices gaining_prices) (nat (sint (2 :: int32))) \<and>
   calculateRSI gaining_prices 2 = Inr (Fin 100)"
proof -
  have d: "list_all is_double (prices gaining_prices)"
    using is_double_int [of 3] is_double_int [of 2] is_double_int [of 1]
    by (simp add: gaining_prices_def)
  have g: "all_gaining (prices gaining_prices) (nat (sint (2 :: int32)))"
    using gaining_all by simp
  show ?thesis
    using d g rsi_all_gaining [OF d _ _ _ g] by (auto simp add: gaining_prices_def)
qed

section \<open>The weighted moving average on equal prices\<close>

lemma triangle_step: "triangle (m + 1) = triangle m + (m + 1)"
proof -
  have "even (m * (m + 1))" by simp
  then obtain k where k: "m * (m + 1) = 2 * k" by (meson evenE)
  have "(m + 1) * (m + 1 + 1) = m * (m + 1) + 2 * (m + 1)" by (simp add: algebra_simps)
  then have "(m + 1) * (m + 1 + 1) = 2 * (k + (m + 1))" using k by simp
  then have "triangle (m + 1) = k + (m + 1)" unfolding triangle_def by simp
  moreover have "triangle m = k" unfolding triangle_def using k by simp
  ultimately show ?thesis by simp
qed

lemma triangle_nonneg: "0 \<le> m \<Longrightarrow> 0 \<le> triangle m"
  by (simp add: triangle_def pos_imp_zdiv_nonneg_iff)

lemma dadd_int:
  assumes "\<bar>x + y\<bar> \<le> 2 ^ 53"
  shows "dadd (Fin (of_int x)) (Fin (of_int y)) = Fin (of_int (x + y))"
proof -
  have "rnd (of_int x + of_int y) = Fin (of_int x + of_int y)"
    using rnd_int [OF assms] by simp
  then show ?thesis by simp
qed

lemma rnd_scaled:
  assumes "0 \<le> m" "m \<le> 2 ^ 53" "- 1074 \<le> s" "of_int m * 2 powi s < (2::rat) powi 1024"
  shows "rnd (of_int m * 2 powi s) = Fin (of_int m * 2 powi s)"
proof (cases "m = 0")
  case True
  then show ?thesis by (simp add: rnd_0)
next
  case False
  then have pos: "0 < m" using assms(1) by simp
  show ?thesis
  proof (cases "m < 2 ^ 53")
    case True
    from rnd_exact [OF pos True assms(3,4)] show ?thesis .
  next
    case False
    then have m: "m = 2 ^ 53" using assms(2) by simp
    have e: "(of_int m :: rat) * 2 powi s = of_int 1 * 2 powi (s + 53)"
      by (simp add: m power_int_add)
    have "of_int 1 * 2 powi (s + 53) < (2::rat) powi 1024" using assms(4) by (simp only: e)
    from rnd_exact [of 1 "s + 53", OF _ _ _ this] assms(3) show ?thesis by (simp only: e) simp
  qed
qed

lemma scaled_zero: "(of_int x * (2::rat) powi s = 0) = (x = 0)"
  by simp

lemma scaled_mono:
  "x \<le> y \<Longrightarrow> of_int x * (2::rat) powi s \<le> of_int y * 2 powi s"
  by (intro mult_right_mono) simp_all

lemma dadd_scaled:
  assumes "0 \<le> x" "0 \<le> y" "x + y \<le> 2 ^ 53" "- 1074 \<le> s"
    and "of_int (x + y) * 2 powi s < (2::rat) powi 1024"
  shows "dadd (Fin (of_int x * 2 powi s)) (Fin (of_int y * 2 powi s))
         = Fin (of_int (x + y) * 2 powi s)"
proof -
  have "0 \<le> x + y" using assms(1,2) by simp
  from rnd_scaled [OF this assms(3,4,5)]
  have r: "rnd (of_int x * 2 powi s + of_int y * 2 powi s) = Fin (of_int (x + y) * 2 powi s)"
    by (simp add: algebra_simps)
  have "of_int x * (2::rat) powi s + of_int y * 2 powi s = of_int (x + y) * 2 powi s"
    by (simp add: algebra_simps)
  then have z: "(of_int x * (2::rat) powi s + of_int y * 2 powi s = 0) = (x + y = 0)"
    by (simp only: scaled_zero)
  show ?thesis
  proof (cases "x = 0 \<or> y = 0")
    case True
    then show ?thesis by auto
  next
    case False
    then have "x + y \<noteq> 0" using assms(1,2) by simp
    then show ?thesis using False r z by (simp del: of_int_add)
  qed
qed

lemma dmul_scaled:
  assumes "0 \<le> c" "0 \<le> w" "c * w \<le> 2 ^ 53" "- 1074 \<le> s"
    and "of_int (c * w) * 2 powi s < (2::rat) powi 1024"
  shows "dmul (Fin (of_int c * 2 powi s)) (Fin (of_int w)) = Fin (of_int (c * w) * 2 powi s)"
proof -
  have "0 \<le> c * w" using assms(1,2) by simp
  from rnd_scaled [OF this assms(3,4,5)]
  have r: "rnd (of_int c * 2 powi s * of_int w) = Fin (of_int (c * w) * 2 powi s)"
    by (simp add: algebra_simps)
  have "0 \<le> of_int c * (2::rat) powi s" using assms(1) by (intro mult_nonneg_nonneg) simp_all
  then have n: "\<not> of_int c * (2::rat) powi s < 0" by simp
  show ?thesis
  proof (cases "c = 0 \<or> w = 0")
    case True
    then show ?thesis using assms(1,2) n by (auto simp add: dmul_def signed_zero_def)
  next
    case False
    then show ?thesis using r by (simp add: dmul_def del: of_int_mult)
  qed
qed

lemma wma_loop_scaled:
  "period - i = int k \<Longrightarrow> 0 \<le> i \<Longrightarrow> nat period \<le> length ps \<Longrightarrow>
   list_all (\<lambda>p. p = Fin (of_int c * 2 powi s)) ps \<Longrightarrow> 0 \<le> c \<Longrightarrow> - 1074 \<le> s \<Longrightarrow>
   0 \<le> w \<Longrightarrow>
   w + triangle (int k) \<le> 2 ^ 53 \<Longrightarrow> c * (w + triangle (int k)) \<le> 2 ^ 53 \<Longrightarrow>
   of_int (c * (w + triangle (int k))) * 2 powi s < (2::rat) powi 1024 \<Longrightarrow>
   wma_loop ps period i (Fin (of_int (c * w) * 2 powi s)) (Fin (of_int w)) =
     Inr (Fin (of_int (c * (w + triangle (int k))) * 2 powi s),
          Fin (of_int (w + triangle (int k))))"
proof (induction k arbitrary: i w)
  case 0
  then have "\<not> i < period" by simp
  then show ?case by (subst wma_loop.simps) (simp add: triangle_def)
next
  case (Suc k)
  define m where "m = int k"
  have lt: "i < period" using Suc.prems(1) by simp
  have m: "0 \<le> m" "period - i = m + 1" "period - (i + 1) = int k" "int (Suc k) = m + 1"
    using Suc.prems(1) by (simp_all add: m_def)
  have tr: "triangle (int (Suc k)) = triangle m + (m + 1)"
    unfolding m(4) by (rule triangle_step)
  have t0: "0 \<le> triangle m" using m(1) by (rule triangle_nonneg)
  define w' where "w' = w + (m + 1)"
  have tr': "triangle (1 + int k) = triangle (int k) + (int k + 1)"
    using triangle_step [of "int k"] by (simp add: add.commute)
  have w': "0 \<le> w'" "w' + triangle (int k) = w + triangle (int (Suc k))"
    using Suc.prems(7) m(1) by (simp_all add: w'_def tr' m_def)
  have rd: "subscript ps i = Inr (Fin (of_int c * 2 powi s))"
    using lt Suc.prems(2,3,4) by (simp add: subscript_def list_all_length)
  have b1: "w' \<le> 2 ^ 53" using Suc.prems(8) tr t0 by (simp add: w'_def)
  have le2: "c * w' \<le> c * (w + triangle (int (Suc k)))"
    using Suc.prems(5) tr t0 by (intro mult_left_mono) (simp_all add: w'_def)
  then have b2: "c * w' \<le> 2 ^ 53" using Suc.prems(9) by simp
  have le3: "c * (m + 1) \<le> c * w'"
    using Suc.prems(5,7) by (intro mult_left_mono) (simp_all add: w'_def)
  then have b3: "c * (m + 1) \<le> 2 ^ 53" using b2 by simp
  have o2: "of_int (c * w') * 2 powi s < (2::rat) powi 1024"
    using scaled_mono [OF le2, of s] Suc.prems(10) by (rule le_less_trans)
  have o3: "of_int (c * (m + 1)) * 2 powi s < (2::rat) powi 1024"
    using scaled_mono [OF le3, of s] o2 by (rule le_less_trans)
  have m1: "0 \<le> m + 1" using m(1) by simp
  have p: "dmul (Fin (of_int c * 2 powi s)) (double_of_int (period - i))
      = Fin (of_int (c * (m + 1)) * 2 powi s)"
    unfolding double_of_int_def m(2) using Suc.prems(5) m1 b3 Suc.prems(6) o3
    by (rule dmul_scaled)
  have cw: "0 \<le> c * w" "0 \<le> c * (m + 1)" using Suc.prems(5,7) m1 by simp_all
  have e: "c * w + c * (m + 1) = c * w'" by (simp add: w'_def algebra_simps)
  have "dadd (Fin (of_int (c * w) * 2 powi s)) (Fin (of_int (c * (m + 1)) * 2 powi s))
      = Fin (of_int (c * w + c * (m + 1)) * 2 powi s)"
    using cw _ Suc.prems(6) by (rule dadd_scaled) (simp_all only: e b2 o2)
  then have sm: "dadd (Fin (of_int (c * w) * 2 powi s)) (Fin (of_int (c * (m + 1)) * 2 powi s))
      = Fin (of_int (c * w') * 2 powi s)"
    by (simp only: e)
  have "\<bar>w + (m + 1)\<bar> \<le> 2 ^ 53" using b1 w'(1) by (simp add: w'_def)
  then have ws: "dadd (Fin (of_int w)) (double_of_int (period - i)) = Fin (of_int w')"
    unfolding double_of_int_def m(2) w'_def by (rule dadd_int)
  have i1: "0 \<le> i + 1" using Suc.prems(2) by simp
  have b7: "w' + triangle (int k) \<le> 2 ^ 53" unfolding w'(2) by (rule Suc.prems(8))
  have b8: "c * (w' + triangle (int k)) \<le> 2 ^ 53" unfolding w'(2) by (rule Suc.prems(9))
  have b9: "of_int (c * (w' + triangle (int k))) * 2 powi s < (2::rat) powi 1024"
    unfolding w'(2) by (rule Suc.prems(10))
  note IH = Suc.IH [OF m(3) i1 Suc.prems(3) Suc.prems(4) Suc.prems(5) Suc.prems(6) w'(1) b7 b8 b9]
  have "wma_loop ps period i (Fin (of_int (c * w) * 2 powi s)) (Fin (of_int w)) =
      wma_loop ps period (i + 1) (Fin (of_int (c * w') * 2 powi s)) (Fin (of_int w'))"
    using lt rd by (subst wma_loop.simps) (simp only: if_True sum.case Let_def p sm ws)
  then show ?case by (simp only: IH w'(2))
qed

lemma wma_loop_step:
  "i < period \<Longrightarrow> subscript ps i = Inr p \<Longrightarrow>
   wma_loop ps period i s w =
     wma_loop ps period (i + 1) (dadd s (dmul p (double_of_int (period - i))))
       (dadd w (double_of_int (period - i)))"
  by (subst wma_loop.simps) (simp add: Let_def)

lemma wma_loop_done: "\<not> i < period \<Longrightarrow> wma_loop ps period i s w = Inr (s, w)"
  by (subst wma_loop.simps) simp

text \<open>
  C8, as the code has it. On a series whose first prices all equal \<open>c * 2\<^sup>s\<close>, for a whole
  number \<open>c \<ge> 0\<close> and an exponent \<open>s \<ge> - 1074\<close> (every \<^verbatim>\<open>double\<close> that is not negative has
  this form), with at least \<open>period\<close> prices, \<^verbatim>\<open>calculateWMA\<close> is exactly that price as long
  as the sum of the weights and \<open>c\<close> times that sum do not exceed \<open>2 ^ 53\<close> and the price
  times that sum is below \<open>2 ^ 1024\<close>: every product and every sum is then exact, and
  the weights cancel.
\<close>

theorem wma_uniform_exact:
  assumes "0 < sint period" "sint period \<le> int (length (prices a))"
    and "list_all (\<lambda>p. p = Fin (of_int c * 2 powi s)) (prices a)" "0 \<le> c" "- 1074 \<le> s"
    and "triangle (sint period) \<le> 2 ^ 53" "c * triangle (sint period) \<le> 2 ^ 53"
    and "of_int (c * triangle (sint period)) * 2 powi s < (2::rat) powi 1024"
  shows "calculateWMA a period = Inr (Fin (of_int c * 2 powi s))"
proof -
  define n where "n = nat (sint period)"
  define T where "T = triangle (sint period)"
  have n: "sint period - 0 = int n" using assms(1) by (simp add: n_def)
  have g: "\<not> length (prices a) < size_t_of period"
    using assms(1,2) by (simp add: size_t_of_nonneg)
  have len: "nat (sint period) \<le> length (prices a)" using assms(2) by simp
  have tn: "triangle (int n) = T" using assms(1) by (simp add: n_def T_def)
  have b7: "0 + triangle (int n) \<le> 2 ^ 53" using assms(6) tn by (simp add: T_def)
  have b8: "c * (0 + triangle (int n)) \<le> 2 ^ 53" using assms(7) tn by (simp add: T_def)
  have b9: "of_int (c * (0 + triangle (int n))) * 2 powi s < (2::rat) powi 1024"
    using assms(8) tn by (simp add: T_def)
  have "wma_loop (prices a) (sint period) 0 (Fin (of_int (c * 0) * 2 powi s)) (Fin (of_int 0)) =
      Inr (Fin (of_int (c * (0 + triangle (int n))) * 2 powi s),
           Fin (of_int (0 + triangle (int n))))"
    using n _ len assms(3,4,5) _ b7 b8 b9 by (rule wma_loop_scaled) simp_all
  then have loop: "wma_loop (prices a) (sint period) 0 (Fin 0) (Fin 0) =
      Inr (Fin (of_int (c * T) * 2 powi s), Fin (of_int T))"
    by (simp add: tn)
  have "1 \<le> sint period" using assms(1) by simp
  then have "triangle 1 \<le> triangle (sint period)"
    unfolding triangle_def by (intro zdiv_mono1 mult_mono) simp_all
  then have tpos: "0 < T" by (simp add: triangle_def T_def)
  have "ddiv (Fin (of_int (c * T) * 2 powi s)) (Fin (of_int T)) = Fin (of_int c * 2 powi s)"
  proof (cases "c = 0")
    case True
    then show ?thesis using tpos by (simp add: ddiv_def signed_zero_def)
  next
    case False
    have le: "c * 1 \<le> c * T" using assms(4) tpos by (intro mult_left_mono) simp_all
    then have c53: "c \<le> 2 ^ 53" using assms(7) by (simp add: T_def)
    have "of_int c * 2 powi s \<le> of_int (c * T) * (2::rat) powi s"
      using scaled_mono [OF le, of s] by simp
    then have "of_int c * 2 powi s < (2::rat) powi 1024"
      using assms(8) unfolding T_def by (rule le_less_trans)
    from rnd_scaled [OF assms(4) c53 assms(5) this]
    have r: "rnd (of_int c * 2 powi s) = Fin (of_int c * 2 powi s)" .
    have "of_int (c * T) * (2::rat) powi s / of_int T = of_int c * 2 powi s"
      using tpos by simp
    moreover have "of_int (c * T) * (2::rat) powi s \<noteq> 0" using False tpos by simp
    moreover have "(of_int T :: rat) \<noteq> 0" using tpos by simp
    ultimately show ?thesis using r by (simp add: ddiv_def del: of_int_mult)
  qed
  then show ?thesis using g loop by (simp add: calculateWMA_def)
qed

text \<open>The theorem at three prices equal to \<^verbatim>\<open>189.25\<close>, that is \<open>757 * 2\<^sup>-\<^sup>2\<close>, and the period 2.\<close>

theorem wma_uniform_exact_witness:
  "0 < sint (2 :: int32) \<and> sint (2 :: int32) \<le> int (length (prices quarter_prices)) \<and>
   list_all (\<lambda>p. p = Fin (757 / 4)) (prices quarter_prices) \<and>
   triangle (sint (2 :: int32)) \<le> 2 ^ 53 \<and> 757 * triangle (sint (2 :: int32)) \<le> 2 ^ 53 \<and>
   calculateWMA quarter_prices 2 = Inr (Fin (757 / 4))"
proof -
  have v: "of_int 757 * (2::rat) powi (- 2) = 757 / 4" by (simp add: power_int_minus)
  have t: "triangle (sint (2 :: int32)) = 3" by (simp add: triangle_def)
  have "(of_int (757 * 3) :: rat) * 2 powi (- 2) < 2 ^ 53" by (simp add: power_int_minus)
  also have "(2::rat) ^ 53 < 2 powi 1024" by (simp add: power_int_def)
  finally have o: "of_int (757 * triangle (sint (2 :: int32))) * 2 powi (- 2) < (2::rat) powi 1024"
    by (simp only: t)
  have l: "list_all (\<lambda>p. p = Fin (of_int 757 * 2 powi (- 2))) (prices quarter_prices)"
    by (simp only: v) (simp add: quarter_prices_def)
  have "calculateWMA quarter_prices 2 = Inr (Fin (of_int 757 * 2 powi (- 2)))"
    by (rule wma_uniform_exact [of 2 quarter_prices 757 "- 2", OF _ _ l _ _ _ _ o])
      (simp_all add: quarter_prices_def triangle_def)
  then show ?thesis using l by (simp add: v triangle_def) (simp add: quarter_prices_def)
qed

subsection \<open>A price whose multiples are rounded\<close>

lemma round_even_tie: "x = of_int n + 1 / 2 \<Longrightarrow> round_even x = (if even n then n else n + 1)"
proof -
  assume x: "x = of_int n + 1 / 2"
  then have "\<lfloor>x\<rfloor> = n" by (intro floor_unique) simp_all
  then show ?thesis using x by (simp add: round_even_def Let_def)
qed

lemma rnd_pos_tie:
  assumes "0 < a" "2 powi e \<le> a" "a < 2 powi (e + 1)"
    and "u = 2 powi (max e (- 1022) - 52)"
    and "a / u = of_int n + 1 / 2"
    and "k = (if even n then n else n + 1)"
    and "of_int k * u < 2 powi 1024"
  shows "rnd a = Fin (of_int k * u)"
proof -
  have "ilog2 a = e" using assms(1-3) by (rule ilog2_eqI)
  then have u: "ulp a = u" by (simp add: ulp_def assms(4))
  have n: "round_even (a / u) = k" using round_even_tie [OF assms(5)] assms(6) by simp
  show ?thesis using assms(1,7) by (simp add: rnd_def Let_def u n)
qed

lemma tenth_double: "rnd tenth = Fin tenth"
  using rnd_exact [of 3602879701896397 "- 55"] by (simp add: tenth_def)

lemma tenth_twice: "rnd (tenth * 2) = Fin (tenth * 2)"
  using rnd_exact [of 3602879701896397 "- 54"] by (simp add: tenth_def)

lemma tenth_thrice: "rnd (tenth * 2 + tenth) = Fin (1351079888211149 / 4503599627370496)"
  using rnd_pos_tie [of "tenth * 2 + tenth" "- 2" "2 powi (- 54)" 5404319552844595 5404319552844596]
  by (simp add: tenth_def)

lemma tenth_quotient:
  "rnd (1351079888211149 / 4503599627370496 / 3) = Fin (7205759403792795 / 72057594037927936)"
  using rnd_pos_eq [of "1351079888211149 / 4503599627370496 / 3" "- 4" "2 powi (- 56)" 7205759403792795]
  by simp

text \<open>
  C8 as stated fails: the weights do not cancel when a sum is rounded. For two prices
  equal to \<^verbatim>\<open>0.1\<close> and the period 2, \<open>0.1 * 2 + 0.1 * 1\<close> lies halfway between two
  \<^verbatim>\<open>double\<close>s and is rounded up, and the quotient by 3 is \<^verbatim>\<open>0.10000000000000002\<close>, one unit
  in the last place above \<^verbatim>\<open>0.1\<close>.
\<close>

theorem wma_uniform_tenth_counterexample:
  "list_all is_double (prices tenth_prices) \<and>
   list_all (\<lambda>p. p = Fin tenth) (prices tenth_prices) \<and>
   sint (2 :: int32) \<le> int (length (prices tenth_prices)) \<and>
   calculateWMA tenth_prices 2 = Inr (Fin (7205759403792795 / 72057594037927936)) \<and>
   tenth = 7205759403792794 / 72057594037927936 \<and>
   calculateWMA tenth_prices 2 \<noteq> Inr (Fin tenth)"
proof -
  have p0: "dmul (Fin tenth) (Fin 2) = Fin (2 * tenth)"
    using tenth_twice by (simp add: dmul_def tenth_def)
  have p1: "dmul (Fin tenth) (Fin 1) = Fin tenth"
    using tenth_double by (simp add: dmul_def tenth_def)
  have s1: "dadd (Fin (2 * tenth)) (Fin tenth) = Fin (1351079888211149 / 4503599627370496)"
    using tenth_thrice by (simp add: tenth_def)
  have w1: "dadd (Fin 2) (Fin 1) = Fin 3"
    using rnd_int [of 3] by simp
  have q: "ddiv (Fin (1351079888211149 / 4503599627370496)) (Fin 3)
      = Fin (7205759403792795 / 72057594037927936)"
    using tenth_quotient by (simp add: ddiv_def)
  have z: "dadd (Fin 0) (Fin (2 * tenth)) = Fin (2 * tenth)" "dadd (Fin 0) (Fin 2) = Fin 2"
    by simp_all
  have "wma_loop [Fin tenth, Fin tenth] 2 0 (Fin 0) (Fin 0)
      = wma_loop [Fin tenth, Fin tenth] 2 (0 + 1)
          (dadd (Fin 0) (dmul (Fin tenth) (double_of_int (2 - 0))))
          (dadd (Fin 0) (double_of_int (2 - 0)))"
    by (rule wma_loop_step) (simp_all add: subscript_def)
  also have "\<dots> = wma_loop [Fin tenth, Fin tenth] 2 1 (Fin (2 * tenth)) (Fin 2)"
    by (simp add: double_of_int_def p0 z del: dadd.simps)
  also have "\<dots> = wma_loop [Fin tenth, Fin tenth] 2 (1 + 1)
          (dadd (Fin (2 * tenth)) (dmul (Fin tenth) (double_of_int (2 - 1))))
          (dadd (Fin 2) (double_of_int (2 - 1)))"
    by (rule wma_loop_step) (simp_all add: subscript_def)
  also have "\<dots> = wma_loop [Fin tenth, Fin tenth] 2 2
          (Fin (1351079888211149 / 4503599627370496)) (Fin 3)"
    by (simp add: double_of_int_def p1 s1 w1 del: dadd.simps)
  also have "\<dots> = Inr (Fin (1351079888211149 / 4503599627370496), Fin 3)"
    by (rule wma_loop_done) simp
  finally have loop: "wma_loop [Fin tenth, Fin tenth] 2 0 (Fin 0) (Fin 0)
      = Inr (Fin (1351079888211149 / 4503599627370496), Fin 3)" .
  have g: "\<not> length (prices tenth_prices) < size_t_of 2"
    by (simp add: tenth_prices_def size_t_of_def)
  have wma: "calculateWMA tenth_prices 2 = Inr (Fin (7205759403792795 / 72057594037927936))"
    using g loop q by (simp add: calculateWMA_def tenth_prices_def)
  have d: "list_all is_double (prices tenth_prices)"
    using tenth_double by (simp add: tenth_prices_def)
  show ?thesis
    using wma d by (simp add: tenth_prices_def) (simp add: tenth_def)
qed

section \<open>The Bollinger bands\<close>

lemma sd_loop_total:
  "period - i = int k \<Longrightarrow> 0 \<le> i \<Longrightarrow> nat period \<le> length ps \<Longrightarrow>
   \<exists>s. sd_loop pow ps mean period i acc = Inr s"
proof (induction k arbitrary: i acc)
  case 0
  then have "\<not> i < period" by simp
  then show ?case by (subst sd_loop.simps) simp
next
  case (Suc k)
  have lt: "i < period" using Suc.prems(1) by simp
  have rd: "subscript ps i = Inr (ps ! nat i)"
    using lt Suc.prems by (simp add: subscript_def)
  have "\<exists>s. sd_loop pow ps mean period (i + 1) (dadd acc (pow (dsub (ps ! nat i) mean) (double_of_int 2))) = Inr s"
    using Suc.prems by (intro Suc.IH) simp_all
  then show ?case using lt rd by (subst sd_loop.simps) simp
qed

lemma calculateStandardDeviation_total:
  assumes "sint period \<le> int (length (prices a))"
  shows "\<exists>sd. calculateStandardDeviation pow a period = Inr sd"
proof -
  have "\<exists>s. sd_loop pow (prices a) (calculateSMA a period) (sint period) 0 (Fin 0) = Inr s"
  proof (cases "0 < sint period")
    case True
    then show ?thesis
      using assms by (intro sd_loop_total [of _ _ "nat (sint period)"]) simp_all
  next
    case False
    then show ?thesis by (subst sd_loop.simps) simp
  qed
  then show ?thesis by (auto simp add: calculateStandardDeviation_def Let_def)
qed

lemma band_difference_exact:
  assumes "dadd (Fin x) (Fin y) = Fin (x + y)" "dsub (Fin x) (Fin y) = Fin (x - y)"
  shows "dsub (Fin (x + y)) (Fin (x - y)) = dmul (Fin 2) (Fin y)"
proof (cases "y = 0")
  case True
  then show ?thesis by (simp add: dsub_def dmul_def signed_zero_def)
next
  case y: False
  have rhs: "dmul (Fin 2) (Fin y) = rnd (2 * y)" using y by (simp add: dmul_def)
  have exact: "rnd (2 * y) = Fin (2 * y)" if "x = y \<or> x = - y"
  proof (cases "x = y")
    case True
    then show ?thesis using assms(1) y by simp
  next
    case False
    then have x: "x = - y" using that by simp
    then have "rnd (- (2 * y)) = Fin (- (2 * y))" using assms(2) y by (simp add: dsub_def)
    moreover have "rnd (- (- (2 * y))) = dneg (rnd (- (2 * y)))"
      using y by (intro rnd_minus) simp
    ultimately show ?thesis using y by simp
  qed
  show ?thesis
  proof (cases "x = y \<or> x = - y")
    case True
    then show ?thesis using exact [OF True] y by (auto simp add: dsub_def rhs)
  next
    case False
    then have "x + y \<noteq> 0" "y - x \<noteq> 0" by auto
    moreover have "x + y + (y - x) = 2 * y" by simp
    ultimately show ?thesis using y False by (simp add: dsub_def rhs)
  qed
qed

text \<open>
  C6, as the code has it. For every series with at least \<open>period\<close> prices, every
  multiplier \<open>m\<close> and every \<^verbatim>\<open>std::pow\<close>, \<^verbatim>\<open>calculateStandardDeviation\<close> returns a value
  \<open>sd\<close> and reads no price out of range, the upper band is the
  \<^verbatim>\<open>double\<close> sum of \<^verbatim>\<open>calculateSMA(period)\<close> and the \<^verbatim>\<open>double\<close> product \<open>m * sd\<close>, and the lower band is
  their \<^verbatim>\<open>double\<close> difference. The difference of the two bands, taken in \<^verbatim>\<open>double\<close> arithmetic,
  equals \<open>2 * (m * sd)\<close> whenever neither band was rounded, that is when the average is
  the finite number \<open>x\<close>, the product \<open>m * sd\<close> is the finite number \<open>y\<close> and the bands are
  the numbers \<open>x + y\<close> and \<open>x - y\<close>.
\<close>

theorem bollinger_bands:
  assumes "sint period \<le> int (length (prices a))"
  shows "(\<exists>sd. calculateStandardDeviation pow a period = Inr sd \<and>
            calculateBollingerBands pow a period m True
              = Inr (dadd (calculateSMA a period) (dmul m sd)) \<and>
            calculateBollingerBands pow a period m False
              = Inr (dsub (calculateSMA a period) (dmul m sd))) \<and>
         (calculateSMA a period = Fin x \<and> calculateStandardDeviation pow a period = Inr sd' \<and>
          dmul m sd' = Fin y \<and>
          calculateBollingerBands pow a period m True = Inr (Fin (x + y)) \<and>
          calculateBollingerBands pow a period m False = Inr (Fin (x - y))
          \<longrightarrow> dsub (Fin (x + y)) (Fin (x - y)) = dmul (Fin 2) (dmul m sd'))"
proof (intro conjI impI)
  from calculateStandardDeviation_total [OF assms]
  obtain sd where sd: "calculateStandardDeviation pow a period = Inr sd" by blast
  then show "\<exists>sd. calculateStandardDeviation pow a period = Inr sd \<and>
            calculateBollingerBands pow a period m True
              = Inr (dadd (calculateSMA a period) (dmul m sd)) \<and>
            calculateBollingerBands pow a period m False
              = Inr (dsub (calculateSMA a period) (dmul m sd))"
    by (simp add: calculateBollingerBands_def Let_def)
next
  assume h: "calculateSMA a period = Fin x \<and> calculateStandardDeviation pow a period = Inr sd' \<and>
          dmul m sd' = Fin y \<and>
          calculateBollingerBands pow a period m True = Inr (Fin (x + y)) \<and>
          calculateBollingerBands pow a period m False = Inr (Fin (x - y))"
  then have sma: "calculateSMA a period = Fin x"
    and sd: "calculateStandardDeviation pow a period = Inr sd'"
    and my: "dmul m sd' = Fin y"
    and up: "calculateBollingerBands pow a period m True = Inr (Fin (x + y))"
    and lo: "calculateBollingerBands pow a period m False = Inr (Fin (x - y))" by blast+
  have "dadd (Fin x) (Fin y) = Fin (x + y)" "dsub (Fin x) (Fin y) = Fin (x - y)"
    using up lo by (simp_all add: calculateBollingerBands_def Let_def sma sd my del: dadd.simps)
  then have "dsub (Fin (x + y)) (Fin (x - y)) = dmul (Fin 2) (Fin y)"
    by (rule band_difference_exact)
  then show "dsub (Fin (x + y)) (Fin (x - y)) = dmul (Fin 2) (dmul m sd')"
    using h by simp
qed

lemma isqrt_bounds: "isqrt n * isqrt n \<le> n \<and> n < (isqrt n + 1) * (isqrt n + 1)"
proof (induction n rule: isqrt.induct)
  case (1 n)
  show ?case
  proof (cases "n < 2")
    case True
    then show ?thesis by (subst (1 2 3 4) isqrt.simps) auto
  next
    case False
    define q where "q = isqrt (n div 4)"
    have IH: "q * q \<le> n div 4" "n div 4 < (q + 1) * (q + 1)"
      using "1.IH" [OF False] by (simp_all add: q_def)
    have lo: "(2 * q) * (2 * q) \<le> n" using IH(1) by simp
    have "n div 4 + 1 \<le> (q + 1) * (q + 1)" using IH(2) by simp
    then have "4 * (n div 4 + 1) \<le> 4 * ((q + 1) * (q + 1))" by simp
    moreover have "n < 4 * (n div 4 + 1)" by simp
    ultimately have hi: "n < (2 * q + 2) * (2 * q + 2)" by (simp add: algebra_simps)
    have e: "isqrt n = (if (2 * q + 1) * (2 * q + 1) \<le> n then 2 * q + 1 else 2 * q)"
      using False by (subst isqrt.simps) (simp add: Let_def q_def)
    show ?thesis using lo hi by (auto simp add: e)
  qed
qed

lemma isqrt_eqI:
  assumes "r * r \<le> n" "n < (r + 1) * (r + 1)"
  shows "isqrt n = r"
proof -
  let ?s = "isqrt n"
  from isqrt_bounds [of n] have s: "?s * ?s \<le> n" "n < (?s + 1) * (?s + 1)" by simp_all
  have "\<not> ?s < r"
  proof
    assume "?s < r"
    then have "?s + 1 \<le> r" by simp
    then have "(?s + 1) * (?s + 1) \<le> r * r" by (intro mult_le_mono)
    then show False using s(2) assms(1) by simp
  qed
  moreover have "\<not> r < ?s"
  proof
    assume "r < ?s"
    then have "r + 1 \<le> ?s" by simp
    then have "(r + 1) * (r + 1) \<le> ?s * ?s" by (intro mult_le_mono)
    then show False using s(1) assms(2) by simp
  qed
  ultimately show ?thesis by simp
qed

lemma ilog2_1: "ilog2 1 = 0"
  by (rule ilog2_eqI) simp_all

lemma dsqrt_1: "dsqrt (Fin 1) = Fin 1"
proof -
  have i: "isqrt (nat \<lfloor>(20282409603651670423947251286016 :: rat)\<rfloor>) = 4503599627370496"
    by (rule isqrt_eqI) simp_all
  have "(1 :: rat) / (2 powi (- 52) * 2 powi (- 52)) = 20282409603651670423947251286016"
    by simp
  then show ?thesis
    using i by (simp add: sqrt_rnd_def ilog2_1 Let_def)
qed

lemma rnd_neg_1: "rnd (- 1) = Fin (- 1)"
  using rnd_int [of "- 1"] by simp

lemma sd_loop_step:
  "i < period \<Longrightarrow> subscript ps i = Inr p \<Longrightarrow>
   sd_loop pow ps mean period i acc =
     sd_loop pow ps mean period (i + 1) (dadd acc (pow (dsub p mean) (double_of_int 2)))"
  by (subst sd_loop.simps) simp

lemma sd_loop_done: "\<not> i < period \<Longrightarrow> sd_loop pow ps mean period i acc = Inr acc"
  by (subst sd_loop.simps) simp

lemma spread_guard: "\<not> length (prices spread_prices) < size_t_of 2"
  by (simp add: spread_prices_def size_t_of_def)

lemma spread_sma: "calculateSMA spread_prices 2 = Fin 2"
  using spread_guard
  by (simp add: calculateSMA_def accumulate_def spread_prices_def ddiv_def double_of_int_def
      rnd_numeral)

lemma spread_sd: "calculateStandardDeviation pow_square spread_prices 2 = Inr (Fin 1)"
proof -
  have d0: "pow_square (dsub (Fin 3) (Fin 2)) (double_of_int 2) = Fin 1"
    by (simp add: pow_square_def double_of_int_def dsub_def dmul_def rnd_1)
  have d1: "pow_square (dsub (Fin 1) (Fin 2)) (double_of_int 2) = Fin 1"
    by (simp add: pow_square_def double_of_int_def dsub_def dmul_def rnd_1 rnd_neg_1)
  have "sd_loop pow_square [Fin 3, Fin 1] (Fin 2) 2 0 (Fin 0)
      = sd_loop pow_square [Fin 3, Fin 1] (Fin 2) 2 (0 + 1) (dadd (Fin 0) (pow_square (dsub (Fin 3) (Fin 2)) (double_of_int 2)))"
    by (rule sd_loop_step) (simp_all add: subscript_def)
  also have "\<dots> = sd_loop pow_square [Fin 3, Fin 1] (Fin 2) 2 1 (Fin 1)"
    by (simp add: d0)
  also have "\<dots> = sd_loop pow_square [Fin 3, Fin 1] (Fin 2) 2 (1 + 1) (dadd (Fin 1) (pow_square (dsub (Fin 1) (Fin 2)) (double_of_int 2)))"
    by (rule sd_loop_step) (simp_all add: subscript_def)
  also have "\<dots> = sd_loop pow_square [Fin 3, Fin 1] (Fin 2) 2 2 (Fin 2)"
    by (simp add: d1 rnd_numeral)
  also have "\<dots> = Inr (Fin 2)"
    by (rule sd_loop_done) simp
  finally have loop: "sd_loop pow_square [Fin 3, Fin 1] (Fin 2) 2 0 (Fin 0) = Inr (Fin 2)" .
  have "ddiv (Fin 2) (double_of_int 2) = Fin 1"
    by (simp add: ddiv_def double_of_int_def rnd_1)
  then show ?thesis
    using spread_guard spread_sma loop dsqrt_1
    by (simp add: calculateStandardDeviation_def) (simp add: spread_prices_def)
qed

theorem bollinger_bands_witness:
  "sint (2 :: int32) \<le> int (length (prices spread_prices)) \<and>
   calculateSMA spread_prices 2 = Fin 2 \<and>
   calculateStandardDeviation pow_square spread_prices 2 = Inr (Fin 1) \<and>
   dmul (Fin 1) (Fin 1) = Fin 1 \<and>
   calculateBollingerBands pow_square spread_prices 2 (Fin 1) True = Inr (Fin 3) \<and>
   calculateBollingerBands pow_square spread_prices 2 (Fin 1) False = Inr (Fin 1) \<and>
   dsub (Fin 3) (Fin 1) = dmul (Fin 2) (dmul (Fin 1) (Fin 1))"
proof -
  have m: "dmul (Fin 1) (Fin 1) = Fin 1" by (simp add: dmul_def rnd_1)
  have u: "calculateBollingerBands pow_square spread_prices 2 (Fin 1) True = Inr (Fin 3)"
    by (simp add: calculateBollingerBands_def spread_sma spread_sd m rnd_numeral)
  have l: "calculateBollingerBands pow_square spread_prices 2 (Fin 1) False = Inr (Fin 1)"
    by (simp add: calculateBollingerBands_def spread_sma spread_sd m dsub_def rnd_1)
  have g: "sint (2 :: int32) \<le> int (length (prices spread_prices))"
    by (simp add: spread_prices_def)
  note exact = bollinger_bands [of 2 spread_prices pow_square "Fin 1" 2 "Fin 1" 1, OF g, THEN conjunct2, THEN mp]
  have "dsub (Fin (2 + 1)) (Fin (2 - 1)) = dmul (Fin 2) (dmul (Fin 1) (Fin 1))"
    by (rule exact) (simp add: spread_sma spread_sd m u l)
  moreover have "(2 :: rat) + 1 = 3" "(2 :: rat) - 1 = 1" by simp_all
  ultimately have "dsub (Fin 3) (Fin 1) = dmul (Fin 2) (dmul (Fin 1) (Fin 1))"
    by (simp only:)
  then show ?thesis using g spread_sma spread_sd m u l by (simp only: simp_thms)
qed

lemma upper_tenth: "rnd (2 + tenth) = Fin (4728779608739021 / 2251799813685248)"
  using rnd_pos_eq [of "2 + tenth" 1 "2 powi (- 51)" 4728779608739021]
  by (simp add: tenth_def)

lemma lower_tenth: "rnd (2 - tenth) = Fin (4278419646001971 / 2251799813685248)"
  using rnd_pos_eq [of "2 - tenth" 0 "2 powi (- 52)" 8556839292003942]
  by (simp add: tenth_def)

lemma difference_tenth:
  "rnd (4728779608739021 / 2251799813685248 - 4278419646001971 / 2251799813685248)
   = Fin (3602879701896400 / 18014398509481984)"
  using rnd_exact [of 225179981368525 "- 50"] by simp

text \<open>
  C6 as stated fails in its last part: each band is rounded on its own, so their
  difference need not be twice the product. For the prices 3 and 1, the period 2 and the
  multiplier \<^verbatim>\<open>0.1\<close> the average is 2 and the standard deviation is 1; the upper band is
  \<^verbatim>\<open>2.1\<close>, the lower band is \<^verbatim>\<open>1.9\<close>, their difference is \<^verbatim>\<open>0.20000000000000018\<close>, and
  \<open>2 * 0.1 * 1\<close> is \<^verbatim>\<open>0.2\<close> in either order of the multiplications.
\<close>

theorem bollinger_difference_counterexample:
  "sint (2 :: int32) \<le> int (length (prices spread_prices)) \<and>
   is_double (Fin tenth) \<and>
   calculateSMA spread_prices 2 = Fin 2 \<and>
   calculateStandardDeviation pow_square spread_prices 2 = Inr (Fin 1) \<and>
   calculateBollingerBands pow_square spread_prices 2 (Fin tenth) True
     = Inr (Fin (4728779608739021 / 2251799813685248)) \<and>
   calculateBollingerBands pow_square spread_prices 2 (Fin tenth) False
     = Inr (Fin (4278419646001971 / 2251799813685248)) \<and>
   dsub (Fin (4728779608739021 / 2251799813685248)) (Fin (4278419646001971 / 2251799813685248))
     = Fin (3602879701896400 / 18014398509481984) \<and>
   dmul (Fin 2) (dmul (Fin tenth) (Fin 1)) = Fin (3602879701896397 / 18014398509481984) \<and>
   dmul (dmul (Fin 2) (Fin tenth)) (Fin 1) = Fin (3602879701896397 / 18014398509481984) \<and>
   dsub (Fin (4728779608739021 / 2251799813685248)) (Fin (4278419646001971 / 2251799813685248))
     \<noteq> dmul (Fin 2) (dmul (Fin tenth) (Fin 1))"
proof -
  have g: "sint (2 :: int32) \<le> int (length (prices spread_prices))"
    by (simp add: spread_prices_def)
  have m: "dmul (Fin tenth) (Fin 1) = Fin tenth"
    using tenth_double by (simp add: dmul_def tenth_def)
  have u: "dadd (Fin 2) (Fin tenth) = Fin (4728779608739021 / 2251799813685248)"
    using upper_tenth by (simp add: tenth_def)
  have l: "dsub (Fin 2) (Fin tenth) = Fin (4278419646001971 / 2251799813685248)"
    using lower_tenth by (simp add: dsub_def tenth_def)
  have d: "dsub (Fin (4728779608739021 / 2251799813685248)) (Fin (4278419646001971 / 2251799813685248))
     = Fin (3602879701896400 / 18014398509481984)"
    using difference_tenth by (simp add: dsub_def)
  have t: "dmul (Fin 2) (Fin tenth) = Fin (3602879701896397 / 18014398509481984)"
    using tenth_twice by (simp add: dmul_def tenth_def)
  have t': "dmul (Fin (3602879701896397 / 18014398509481984)) (Fin 1)
     = Fin (3602879701896397 / 18014398509481984)"
    using tenth_twice by (simp add: dmul_def tenth_def)
  have bu: "calculateBollingerBands pow_square spread_prices 2 (Fin tenth) True
     = Inr (Fin (4728779608739021 / 2251799813685248))"
    by (simp add: calculateBollingerBands_def spread_sma spread_sd m u del: dadd.simps)
  have bl: "calculateBollingerBands pow_square spread_prices 2 (Fin tenth) False
     = Inr (Fin (4278419646001971 / 2251799813685248))"
    by (simp add: calculateBollingerBands_def spread_sma spread_sd m l del: dadd.simps)
  have ne: "dsub (Fin (4728779608739021 / 2251799813685248)) (Fin (4278419646001971 / 2251799813685248))
     \<noteq> dmul (Fin 2) (dmul (Fin tenth) (Fin 1))"
    by (simp only: d m t) simp
  show ?thesis
    using g spread_sma spread_sd tenth_double bu bl d t t' m ne
    by (simp only: simp_thms is_double.simps)
qed

end
